theory Spec2Isabelle
  imports Main "HOL-Library.AList" "HOL-Library.Sublist"
begin

section \<open>Python values and dictionaries\<close>

text \<open>
  Metadata records and filters are untyped Python dictionaries with string keys. The
  values modelled are \<open>None\<close>, integers (Python's \<open>bool\<close> is a subtype of \<open>int\<close>:
  \<open>True\<close> is \<open>VInt 1\<close>), strings and lists of such values; floats and nested
  dictionaries are left out. A dictionary is an association list in insertion order, read
  with \<open>map_of\<close> and written with \<open>AList.update\<close>, which replaces the value of a
  present key in place and appends a new key at the end, as a Python \<open>dict\<close> does.
\<close>

datatype pyval = VNone | VInt int | VStr string | VList "pyval list"

type_synonym pydict = "(string \<times> pyval) list"

datatype error =
    ValueError        \<comment> \<open>raised by \<open>add_documents\<close> on a count mismatch\<close>
  | TypeError         \<comment> \<open>unhashable dictionary key, unordered comparison\<close>
  | AttributeError    \<comment> \<open>\<open>.lower()\<close> on a value that is not a string\<close>
  | IndexError        \<comment> \<open>list index out of range\<close>
  | KeyError          \<comment> \<open>missing dictionary key\<close>
  | FaissError        \<comment> \<open>assertion or runtime error of the vector library\<close>
  | OSError           \<comment> \<open>a file could not be written\<close>
  | DecodeError       \<comment> \<open>a persisted file could not be parsed\<close>

fun truthy :: "pyval \<Rightarrow> bool" where
  "truthy VNone = False"
| "truthy (VInt i) = (i \<noteq> 0)"
| "truthy (VStr s) = (s \<noteq> [])"
| "truthy (VList vs) = (vs \<noteq> [])"

text \<open>\<open>d.get(k)\<close> and \<open>d.get(k, default)\<close>.\<close>

definition dict_get :: "pydict \<Rightarrow> string \<Rightarrow> pyval" where
  "dict_get d k = (case map_of d k of None \<Rightarrow> VNone | Some v \<Rightarrow> v)"

definition dict_get_default :: "pydict \<Rightarrow> string \<Rightarrow> pyval \<Rightarrow> pyval" where
  "dict_get_default d k dflt = (case map_of d k of None \<Rightarrow> dflt | Some v \<Rightarrow> v)"

text \<open>Lists are the only unhashable values of the model.\<close>

fun hashable :: "pyval \<Rightarrow> bool" where
  "hashable (VList vs) = False"
| "hashable v = True"

section \<open>The vector library\<close>

text \<open>
  The index object of the vector library, as far as the manager observes it: its kind,
  its dimension \<open>d\<close>, its \<open>is_trained\<close> flag and the rows added so far, in the order of
  their labels (\<open>ntotal\<close> is their number). A flat index is born trained, a clustered one
  is not. \<open>add\<close> and \<open>train\<close> reject rows of another dimension, \<open>add\<close> rejects an
  untrained index, and \<open>train\<close> of a clustered index rejects fewer rows than clusters.
  The component type \<open>'a\<close> of a row is left open.
\<close>

datatype index_kind = IndexFlatIP | IndexIVFFlat

record 'a faiss_index =
  kind :: index_kind
  d :: nat
  is_trained :: bool
  xb :: "'a list list"

definition ntotal :: "'a faiss_index \<Rightarrow> nat" where
  "ntotal ix = length (xb ix)"

definition IVF_NLIST :: nat where
  "IVF_NLIST = 100"

definition faiss_train :: "'a faiss_index \<Rightarrow> 'a list list \<Rightarrow> error + 'a faiss_index" where
  "faiss_train ix rows =
     (if \<exists>r \<in> set rows. length r \<noteq> d ix then Inl FaissError
      else if kind ix = IndexIVFFlat \<and> \<not> is_trained ix \<and> length rows < IVF_NLIST
        then Inl FaissError
      else Inr (ix\<lparr>is_trained := True\<rparr>))"

definition faiss_add :: "'a faiss_index \<Rightarrow> 'a list list \<Rightarrow> error + 'a faiss_index" where
  "faiss_add ix rows =
     (if \<exists>r \<in> set rows. length r \<noteq> d ix then Inl FaissError
      else if \<not> is_trained ix then Inl FaissError
      else Inr (ix\<lparr>xb := xb ix @ rows\<rparr>))"

section \<open>Persisted artifacts\<close>

text \<open>
  The two files of the index directory. The index file holds either an index the library
  can read back or bytes it cannot. The sidecar holds either a JSON object, whose four
  keys may each be missing, or anything else: text that does not parse, or a JSON value
  that is not an object; reading the metadata from either raises. JSON object keys are
  strings, so the identity map is stored with its keys converted. Either file can be
  unwritable, in which case writing it raises.
\<close>

datatype 'a index_blob = BlobGarbage | Blob "'a faiss_index"

record sidecar =
  sc_metadata :: "pydict list option"
  sc_id_to_idx :: "(string \<times> nat) list option"
  sc_index_type :: "string option"
  sc_dimension :: "nat option"

datatype json_file = JsonGarbage | JsonObject sidecar

record 'a disk =
  index_file :: "'a index_blob option"
  metadata_file :: "json_file option"
  index_writable :: bool
  metadata_writable :: bool

section \<open>The index manager\<close>

record 'a manager =
  dimension :: nat
  index_type :: string
  index :: "'a faiss_index option"
  metadata :: "pydict list"
  id_to_idx :: "(pyval \<times> nat) list"
  files :: "'a disk"

text \<open>The properties \<open>size\<close> and \<open>is_trained\<close>, and \<open>_create_index\<close>.\<close>

definition size_of :: "'a manager \<Rightarrow> nat" where
  "size_of s = (case index s of None \<Rightarrow> 0 | Some ix \<Rightarrow> ntotal ix)"

definition trained :: "'a manager \<Rightarrow> bool" where
  "trained s = (case index s of None \<Rightarrow> False | Some ix \<Rightarrow> is_trained ix)"

definition new_index :: "'a manager \<Rightarrow> 'a faiss_index" where
  "new_index s =
     (if index_type s = ''ivf''
      then \<lparr>kind = IndexIVFFlat, d = dimension s, is_trained = False, xb = []\<rparr>
      else \<lparr>kind = IndexFlatIP, d = dimension s, is_trained = True, xb = []\<rparr>)"

definition create_index :: "'a manager \<Rightarrow> 'a manager" where
  "create_index s = s\<lparr>index := Some (new_index s)\<rparr>"

text \<open>The property \<open>index\<close>: creates the index on first use.\<close>

definition the_index :: "'a manager \<Rightarrow> 'a faiss_index \<times> 'a manager" where
  "the_index s =
     (case index s of
        Some ix \<Rightarrow> (ix, s)
      | None \<Rightarrow> (new_index s, create_index s))"

subsection \<open>Saving\<close>

text \<open>
  \<open>json.dump\<close> writes a dictionary key that is not a string as text: an integer in
  decimal, \<open>None\<close> as \<open>null\<close>.
\<close>

definition digit_char :: "nat \<Rightarrow> char" where
  "digit_char n = char_of (48 + n)"

fun show_nat :: "nat \<Rightarrow> string" where
  "show_nat n = (if n < 10 then [digit_char n] else show_nat (n div 10) @ [digit_char (n mod 10)])"

declare show_nat.simps [simp del]

definition show_int :: "int \<Rightarrow> string" where
  "show_int i = (if i < 0 then CHR ''-'' # show_nat (nat (- i)) else show_nat (nat i))"

fun json_key :: "pyval \<Rightarrow> string" where
  "json_key (VStr s) = s"
| "json_key (VInt i) = show_int i"
| "json_key VNone = ''null''"
| "json_key (VList vs) = []"  \<comment> \<open>never a key: a list is unhashable\<close>

definition save_index :: "'a manager \<Rightarrow> error option \<times> 'a manager" where
  "save_index s =
     (case index s of
        None \<Rightarrow> (Some TypeError, s)
      | Some ix \<Rightarrow>
          if \<not> index_writable (files s) then (Some OSError, s)
          else
            let s1 = s\<lparr>files := (files s)\<lparr>index_file := Some (Blob ix)\<rparr>\<rparr> in
            if \<not> metadata_writable (files s1) then (Some OSError, s1)
            else
              (None, s1\<lparr>files := (files s1)\<lparr>metadata_file := Some (JsonObject
                 \<lparr>sc_metadata = Some (metadata s1),
                  sc_id_to_idx = Some (map (\<lambda>(k, v). (json_key k, v)) (id_to_idx s1)),
                  sc_index_type = Some (index_type s1),
                  sc_dimension = Some (dimension s1)\<rparr>)\<rparr>\<rparr>))"

subsection \<open>Loading, construction and clearing\<close>

text \<open>
  \<open>json.load\<close> builds the identity map from the stored pairs in order, a later pair
  replacing an earlier one with the same key.
\<close>

definition load_dict :: "(string \<times> nat) list \<Rightarrow> (pyval \<times> nat) list" where
  "load_dict kvs = foldl (\<lambda>acc (k, v). AList.update (VStr k) v acc) [] kvs"

text \<open>
  \<open>_load_index\<close>: returns \<open>False\<close> when a file is missing; otherwise reads the index,
  then the sidecar, and any exception on the way is caught and answered with \<open>False\<close>,
  the assignments made before it staying in place. The stored dimension is not read.
\<close>

definition load_index :: "'a manager \<Rightarrow> bool \<times> 'a manager" where
  "load_index s =
     (case (index_file (files s), metadata_file (files s)) of
        (Some blob, Some js) \<Rightarrow>
          (case blob of
             BlobGarbage \<Rightarrow> (False, s)
           | Blob ix \<Rightarrow>
               (case js of
                  JsonGarbage \<Rightarrow> (False, s\<lparr>index := Some ix\<rparr>)
                | JsonObject sc \<Rightarrow>
                    (case sc_metadata sc of
                       None \<Rightarrow> (False, s\<lparr>index := Some ix\<rparr>)
                     | Some md \<Rightarrow>
                         (True, s\<lparr>index := Some ix,
                                  metadata := md,
                                  id_to_idx := (case sc_id_to_idx sc of None \<Rightarrow> [] | Some kvs \<Rightarrow> load_dict kvs),
                                  index_type := (case sc_index_type sc of None \<Rightarrow> ''flat'' | Some t \<Rightarrow> t)\<rparr>))))
      | _ \<Rightarrow> (False, s))"

text \<open>\<open>__init__\<close>: the fields are set, then \<open>_load_index\<close> is tried and its answer dropped.\<close>

definition init :: "nat \<Rightarrow> string \<Rightarrow> 'a disk \<Rightarrow> 'a manager" where
  "init dim itype fs =
     snd (load_index \<lparr>dimension = dim, index_type = itype, index = None,
                      metadata = [], id_to_idx = [], files = fs\<rparr>)"

definition empty_disk :: "'a disk" where
  "empty_disk = \<lparr>index_file = None, metadata_file = None,
                 index_writable = True, metadata_writable = True\<rparr>"

definition clear :: "'a manager \<Rightarrow> 'a manager" where
  "clear s = s\<lparr>index := None, metadata := [], id_to_idx := [],
               files := (files s)\<lparr>index_file := None, metadata_file := None\<rparr>\<rparr>"

subsection \<open>Adding documents\<close>

text \<open>\<open>meta.get("id") or meta.get("source_id", "")\<close>\<close>

definition doc_id :: "pydict \<Rightarrow> pyval" where
  "doc_id meta =
     (if truthy (dict_get meta ''id'') then dict_get meta ''id''
      else dict_get_default meta ''source_id'' (VStr ''''))"

text \<open>
  The deduplicating loop over \<open>zip(embeddings, metadata)\<close>. \<open>n\<close> is \<open>len(self._metadata)\<close>,
  which the loop does not change. Looking up an unhashable identifier raises, and leaves
  the identifiers registered so far in the map.
\<close>

fun dedup_loop ::
  "nat \<Rightarrow> ('a list \<times> pydict) list \<Rightarrow> 'a list list \<Rightarrow> pydict list \<Rightarrow> (pyval \<times> nat) list
    \<Rightarrow> error option \<times> 'a list list \<times> pydict list \<times> (pyval \<times> nat) list" where
  "dedup_loop n [] new_embeddings new_metadata ids = (None, new_embeddings, new_metadata, ids)"
| "dedup_loop n ((emb, meta) # rest) new_embeddings new_metadata ids =
     (if \<not> hashable (doc_id meta) then (Some TypeError, new_embeddings, new_metadata, ids)
      else if map_of ids (doc_id meta) = None
        then dedup_loop n rest (new_embeddings @ [emb]) (new_metadata @ [meta])
               (AList.update (doc_id meta) (n + length (new_metadata @ [meta]) - 1) ids)
      else dedup_loop n rest new_embeddings new_metadata ids)"

text \<open>The loop of the other branch, over \<open>enumerate(metadata)\<close> from \<open>i\<close>.\<close>

fun register_loop ::
  "nat \<Rightarrow> nat \<Rightarrow> pydict list \<Rightarrow> (pyval \<times> nat) list \<Rightarrow> error option \<times> (pyval \<times> nat) list" where
  "register_loop n i [] ids = (None, ids)"
| "register_loop n i (meta # rest) ids =
     (if \<not> hashable (doc_id meta) then (Some TypeError, ids)
      else register_loop n (Suc i) rest (AList.update (doc_id meta) (n + i) ids))"

text \<open>Training, or the fall back to a flat index, before the rows are added.\<close>

definition train_step :: "'a manager \<Rightarrow> 'a list list \<Rightarrow> error option \<times> 'a manager" where
  "train_step s embeddings =
     (if index_type s = ''ivf'' \<and> \<not> trained s then
        if length embeddings \<ge> IVF_NLIST then
          (case the_index s of (ix, s1) \<Rightarrow>
             (case faiss_train ix embeddings of
                Inl e \<Rightarrow> (Some e, s1)
              | Inr ix' \<Rightarrow> (None, s1\<lparr>index := Some ix'\<rparr>)))
        else (None, create_index (s\<lparr>index_type := ''flat''\<rparr>))
      else (None, s))"

text \<open>\<open>index.add\<close>, \<open>_metadata.extend\<close>, \<open>_save_index\<close> and the returned count.\<close>

definition commit :: "'a manager \<Rightarrow> 'a list list \<Rightarrow> pydict list \<Rightarrow> (error + nat) \<times> 'a manager" where
  "commit s embeddings metas =
     (case train_step s embeddings of
        (Some e, s1) \<Rightarrow> (Inl e, s1)
      | (None, s1) \<Rightarrow>
          (case the_index s1 of (ix, s2) \<Rightarrow>
             (case faiss_add ix embeddings of
                Inl e \<Rightarrow> (Inl e, s2)
              | Inr ix' \<Rightarrow>
                  (case save_index (s2\<lparr>index := Some ix', metadata := metadata s2 @ metas\<rparr>) of
                     (Some e, s3) \<Rightarrow> (Inl e, s3)
                   | (None, s3) \<Rightarrow> (Inr (length embeddings), s3)))))"

text \<open>
  \<open>add_documents\<close>. \<open>f32\<close> is the conversion of a component to 32-bit precision. The
  result is the exception raised or the count returned, with the manager as the call
  leaves it.
\<close>

definition add_documents ::
  "('a \<Rightarrow> 'a) \<Rightarrow> 'a manager \<Rightarrow> 'a list list \<Rightarrow> pydict list \<Rightarrow> bool \<Rightarrow> (error + nat) \<times> 'a manager" where
  "add_documents f32 s embeddings metas deduplicate =
     (if length embeddings \<noteq> length metas then (Inl ValueError, s)
      else if length embeddings = 0 then (Inr 0, s)
      else
        let embs = map (map f32) embeddings in
        if deduplicate then
          (case dedup_loop (length (metadata s)) (zip embs metas) [] [] (id_to_idx s) of
             (Some e, new_embeddings, new_metadata, ids) \<Rightarrow> (Inl e, s\<lparr>id_to_idx := ids\<rparr>)
           | (None, new_embeddings, new_metadata, ids) \<Rightarrow>
               if new_embeddings = [] then (Inr 0, s\<lparr>id_to_idx := ids\<rparr>)
               else commit (s\<lparr>id_to_idx := ids\<rparr>) new_embeddings new_metadata)
        else
          (case register_loop (length (metadata s)) 0 metas (id_to_idx s) of
             (Some e, ids) \<Rightarrow> (Inl e, s\<lparr>id_to_idx := ids\<rparr>)
           | (None, ids) \<Rightarrow> commit (s\<lparr>id_to_idx := ids\<rparr>) embs metas))"

section \<open>Filters\<close>

text \<open>
  \<open>str.lower\<close>, on the letters A to Z only (a character is a byte here, and the
  lower case of letters beyond ASCII is not modelled); the operator \<open>in\<close>; and the
  order \<open><\<close>: integers by value, strings by code point, lists by their first differing
  element. Any other pair of operands raises.
\<close>

definition lower_char :: "char \<Rightarrow> char" where
  "lower_char c = (let n = (of_char c :: nat) in if 65 \<le> n \<and> n \<le> 90 then char_of (n + 32) else c)"

definition lower :: "string \<Rightarrow> string" where
  "lower s = map lower_char s"

fun str_lt :: "string \<Rightarrow> string \<Rightarrow> bool" where
  "str_lt [] [] = False"
| "str_lt [] (y # ys) = True"
| "str_lt (x # xs) [] = False"
| "str_lt (x # xs) (y # ys) = (if x = y then str_lt xs ys else (of_char x :: nat) < of_char y)"

fun py_lt :: "pyval \<Rightarrow> pyval \<Rightarrow> error + bool"
  and py_list_lt :: "pyval list \<Rightarrow> pyval list \<Rightarrow> error + bool" where
  "py_lt (VInt a) (VInt b) = Inr (a < b)"
| "py_lt (VStr a) (VStr b) = Inr (str_lt a b)"
| "py_lt (VList a) (VList b) = py_list_lt a b"
| "py_lt _ _ = Inl TypeError"
| "py_list_lt [] [] = Inr False"
| "py_list_lt [] (y # ys) = Inr True"
| "py_list_lt (x # xs) [] = Inr False"
| "py_list_lt (x # xs) (y # ys) = (if x = y then py_list_lt xs ys else py_lt x y)"

fun py_in :: "pyval \<Rightarrow> pyval \<Rightarrow> error + bool" where
  "py_in x (VList vs) = Inr (x \<in> set vs)"
| "py_in (VStr t) (VStr u) = Inr (sublist t u)"
| "py_in _ _ = Inl TypeError"

text \<open>A clause answers \<open>True\<close> to go on to the next one, \<open>False\<close> to reject the record.\<close>

definition and_then :: "error + bool \<Rightarrow> error + bool \<Rightarrow> error + bool" where
  "and_then a b = (case a of Inl e \<Rightarrow> Inl e | Inr ok \<Rightarrow> if ok then b else Inr False)"

text \<open>\<open>any(t.lower() in meta_topic for t in ...)\<close> over the elements of a list.\<close>

fun any_topic :: "string \<Rightarrow> pyval list \<Rightarrow> error + bool" where
  "any_topic meta_topic [] = Inr False"
| "any_topic meta_topic (t # ts) =
     (case t of
        VStr u \<Rightarrow> if sublist (lower u) meta_topic then Inr True else any_topic meta_topic ts
      | _ \<Rightarrow> Inl AttributeError)"

definition topic_clause :: "pydict \<Rightarrow> pydict \<Rightarrow> error + bool" where
  "topic_clause meta filters =
     (if truthy (dict_get filters ''topics'') then
        (case dict_get_default meta ''topic'' (VStr '''') of
           VStr s \<Rightarrow>
             (case dict_get filters ''topics'' of
                VList ts \<Rightarrow> any_topic (lower s) ts
              | VStr u \<Rightarrow> any_topic (lower s) (map (\<lambda>c. VStr [c]) u)
              | _ \<Rightarrow> Inl TypeError)
         | _ \<Rightarrow> Inl AttributeError)
      else Inr True)"

definition type_clause :: "pydict \<Rightarrow> pydict \<Rightarrow> error + bool" where
  "type_clause meta filters =
     (if truthy (dict_get filters ''types'')
      then py_in (dict_get_default meta ''type'' (VStr '''')) (dict_get filters ''types'')
      else Inr True)"

definition paper_clause :: "pydict \<Rightarrow> pydict \<Rightarrow> error + bool" where
  "paper_clause meta filters =
     (if truthy (dict_get filters ''paper_ids'')
      then py_in (dict_get_default meta ''paper_id'' (VStr '''')) (dict_get filters ''paper_ids'')
      else Inr True)"

definition marks_clause :: "pydict \<Rightarrow> pydict \<Rightarrow> error + bool" where
  "marks_clause meta filters =
     (let meta_marks = dict_get meta ''marks'' in
      if meta_marks = VNone then Inr True
      else
        (case (if dict_get filters ''min_marks'' \<noteq> VNone
               then py_lt meta_marks (dict_get filters ''min_marks'') else Inr False) of
           Inl e \<Rightarrow> Inl e
         | Inr too_low \<Rightarrow>
             if too_low then Inr False
             else
               (case (if dict_get filters ''max_marks'' \<noteq> VNone
                      then py_lt (dict_get filters ''max_marks'') meta_marks else Inr False) of
                  Inl e \<Rightarrow> Inl e
                | Inr too_high \<Rightarrow> Inr (\<not> too_high))))"

definition matches_filters :: "pydict \<Rightarrow> pydict \<Rightarrow> error + bool" where
  "matches_filters meta filters =
     and_then (topic_clause meta filters)
       (and_then (type_clause meta filters)
          (and_then (paper_clause meta filters) (marks_clause meta filters)))"

section \<open>Search\<close>

text \<open>\<open>xs[i]\<close> as Python reads it: a negative index counts from the end.\<close>

definition py_index :: "'b list \<Rightarrow> int \<Rightarrow> error + 'b" where
  "py_index xs i =
     (if 0 \<le> i \<and> i < int (length xs) then Inr (xs ! nat i)
      else if i < 0 \<and> - int (length xs) \<le> i then Inr (xs ! nat (int (length xs) + i))
      else Inl IndexError)"

text \<open>The truth value of \<open>filters\<close>: neither \<open>None\<close> nor an empty dictionary.\<close>

definition filters_given :: "pydict option \<Rightarrow> bool" where
  "filters_given filters = (case filters of None \<Rightarrow> False | Some f \<Rightarrow> f \<noteq> [])"

text \<open>\<open>filters and not self._matches_filters(meta, filters)\<close>, negated.\<close>

definition passes :: "pydict option \<Rightarrow> pydict \<Rightarrow> error + bool" where
  "passes filters meta =
     (case filters of
        None \<Rightarrow> Inr True
      | Some f \<Rightarrow> if f = [] then Inr True else matches_filters meta f)"

text \<open>The loop over \<open>zip(scores, indices)\<close>, \<open>results\<close> being the list built so far.\<close>

fun collect ::
  "pydict list \<Rightarrow> nat \<Rightarrow> pydict option \<Rightarrow> ('s \<times> int) list \<Rightarrow> (pydict \<times> 's) list
    \<Rightarrow> error + (pydict \<times> 's) list" where
  "collect md k filters [] results = Inr results"
| "collect md k filters ((score, idx) # rest) results =
     (if idx = - 1 then collect md k filters rest results
      else if idx \<ge> int (length md) then collect md k filters rest results
      else
        (case py_index md idx of
           Inl e \<Rightarrow> Inl e
         | Inr meta \<Rightarrow>
             (case passes filters meta of
                Inl e \<Rightarrow> Inl e
              | Inr ok \<Rightarrow>
                  if \<not> ok then collect md k filters rest results
                  else if length (results @ [(meta, score)]) \<ge> k then Inr (results @ [(meta, score)])
                  else collect md k filters rest (results @ [(meta, score)]))))"

text \<open>
  \<open>search\<close>. \<open>nn\<close> is the library's search of an index for a query and a number of
  candidates; it answers with (score, label) pairs in rank order, or raises.
\<close>

definition search ::
  "('a \<Rightarrow> 'a) \<Rightarrow> ('a faiss_index \<Rightarrow> 'a list \<Rightarrow> nat \<Rightarrow> error + ('s \<times> int) list)
    \<Rightarrow> 'a manager \<Rightarrow> 'a list \<Rightarrow> nat \<Rightarrow> pydict option \<Rightarrow> error + (pydict \<times> 's) list" where
  "search f32 nn s query_embedding k filters =
     (if size_of s = 0 then Inr []
      else
        let query = map f32 query_embedding;
            search_k = (if filters_given filters then min (k * 3) (size_of s) else k)
        in
          (case nn (fst (the_index s)) query search_k of
             Inl e \<Rightarrow> Inl e
           | Inr candidates \<Rightarrow> collect (metadata s) k filters candidates []))"

section \<open>Resolved candidates and a worked example\<close>

text \<open>
  The candidates whose label is a position of the metadata list, each with the record
  at that position, in candidate order.
\<close>

definition resolve :: "pydict list \<Rightarrow> ('s \<times> int) list \<Rightarrow> (pydict \<times> 's) list" where
  "resolve md cands =
     map (\<lambda>(sc, i). (md ! nat i, sc)) (filter (\<lambda>(sc, i). 0 \<le> i \<and> i < int (length md)) cands)"

text \<open>
  An exact inner-product search over integer rows, for running the manager on examples:
  the rows ranked by descending score, padded with the label \<open>- 1\<close> when more candidates
  are asked for than rows exist.
\<close>

definition dot :: "int list \<Rightarrow> int list \<Rightarrow> int" where
  "dot xs ys = sum_list (map2 (*) xs ys)"

definition exact_ip :: "int faiss_index \<Rightarrow> int list \<Rightarrow> nat \<Rightarrow> error + (int \<times> int) list" where
  "exact_ip ix q w =
     (if w = 0 \<or> length q \<noteq> d ix then Inl FaissError
      else
        let ranked = rev (sort_key fst (zip (map (dot q) (xb ix)) (map int [0..<length (xb ix)])))
        in Inr (take w ranked @ replicate (w - length ranked) (- 1000000, - 1)))"

text \<open>Two records, ingested as the unit vectors of dimension 2.\<close>

definition q1 :: pydict where
  "q1 = [(''id'', VStr ''q1''), (''topic'', VStr ''Thermo''), (''marks'', VInt 5)]"

definition q2 :: pydict where
  "q2 = [(''id'', VStr ''q2''), (''topic'', VStr ''Optics''), (''marks'', VInt 10)]"

definition example_index :: "int manager" where
  "example_index =
     snd (add_documents id (init 2 ''flat'' empty_disk) [[1, 0], [0, 1]] [q1, q2] True)"

section \<open>Sequences of calls\<close>

text \<open>The rows held by the index, in label order; none before the index exists.\<close>

definition vectors :: "'a manager \<Rightarrow> 'a list list" where
  "vectors s = (case index s of None \<Rightarrow> [] | Some ix \<Rightarrow> xb ix)"

text \<open>
  The rows of a batch that \<open>add_documents\<close> goes on to add: with deduplication those the
  loop has kept, otherwise all of them.
\<close>

definition surviving :: "('a \<Rightarrow> 'a) \<Rightarrow> 'a manager \<Rightarrow> 'a list list \<Rightarrow> pydict list \<Rightarrow> bool \<Rightarrow> 'a list list" where
  "surviving f32 s embeddings metas deduplicate =
     (if deduplicate
      then fst (snd (dedup_loop (length (metadata s)) (zip (map (map f32) embeddings) metas)
                       [] [] (id_to_idx s)))
      else map (map f32) embeddings)"

text \<open>
  The calls that change a manager, and a manager driven through a list of them. An
  exception ends a call, not the sequence: the next call finds the manager as the failed
  one left it.
\<close>

datatype 'a call = Add "'a list list" "pydict list" bool | Clear

fun step :: "('a \<Rightarrow> 'a) \<Rightarrow> 'a manager \<Rightarrow> 'a call \<Rightarrow> 'a manager" where
  "step f32 s (Add embeddings metas deduplicate) =
     snd (add_documents f32 s embeddings metas deduplicate)"
| "step f32 s Clear = clear s"

definition run :: "('a \<Rightarrow> 'a) \<Rightarrow> 'a manager \<Rightarrow> 'a call list \<Rightarrow> 'a manager" where
  "run f32 s calls = foldl (step f32) s calls"

text \<open>The (row, record) pairs handed over together by the \<open>Add\<close> calls of a list.\<close>

fun passed :: "('a \<Rightarrow> 'a) \<Rightarrow> 'a call \<Rightarrow> ('a list \<times> pydict) set" where
  "passed f32 (Add embeddings metas deduplicate) = set (zip (map (map f32) embeddings) metas)"
| "passed f32 Clear = {}"

text \<open>A record with neither a truthy \<open>id\<close> nor a \<open>source_id\<close> field.\<close>

definition idless :: "pydict \<Rightarrow> bool" where
  "idless meta = (\<not> truthy (dict_get meta ''id'') \<and> map_of meta ''source_id'' = None)"

fun is_dedup_add :: "'a call \<Rightarrow> bool" where
  "is_dedup_add (Add embeddings metas deduplicate) = deduplicate"
| "is_dedup_add Clear = False"

text \<open>As many rows as records, and an index that is not trained holds no rows.\<close>

definition aligned :: "'a manager \<Rightarrow> bool" where
  "aligned s = (length (vectors s) = length (metadata s) \<and>
                (case index s of None \<Rightarrow> True | Some ix \<Rightarrow> is_trained ix \<or> xb ix = []))"

text \<open>The manager is set to exact search, and so is the index it holds, if it holds one.\<close>

definition flat_state :: "'a manager \<Rightarrow> bool" where
  "flat_state s = (index_type s = ''flat'' \<and>
                   (case index s of None \<Rightarrow> True | Some ix \<Rightarrow> kind ix = IndexFlatIP))"

text \<open>A batch too small to train on, followed by one large enough.\<close>

definition small_then_large :: "int call list" where
  "small_then_large = [Add [[1, 0]] [q1] True, Add (replicate 100 [0, 1]) (replicate 100 q2) False]"

text \<open>
  At most one record is registered under the empty identifier, and if there is one the
  identity map knows the empty identifier.
\<close>

definition blank_once :: "pydict list \<Rightarrow> (pyval \<times> nat) list \<Rightarrow> bool" where
  "blank_once md ids =
     (length (filter (\<lambda>m. doc_id m = VStr []) md) \<le> 1 \<and>
      ((\<exists>m \<in> set md. doc_id m = VStr []) \<longrightarrow> map_of ids (VStr []) \<noteq> None))"

text \<open>Three records without an identifier, in two deduplicating batches.\<close>

definition two_blank_batches :: "int call list" where
  "two_blank_batches =
     [Add [[1, 0], [0, 1]] [[(''topic'', VStr ''Thermo'')], [(''id'', VStr [])]] True,
      Add [[1, 0]] [[(''topic'', VStr ''Optics'')]] True]"

section \<open>Example directories\<close>

text \<open>
  What a save of the worked example leaves on disk, the same with an unreadable index
  file, and with a sidecar that does not parse.
\<close>

definition saved_sidecar :: json_file where
  "saved_sidecar = JsonObject \<lparr>sc_metadata = Some [q1, q2],
     sc_id_to_idx = Some [(''q1'', 0), (''q2'', 1)],
     sc_index_type = Some ''flat'', sc_dimension = Some 2\<rparr>"

definition saved_blob :: "int index_blob" where
  "saved_blob = Blob \<lparr>kind = IndexFlatIP, d = 2, is_trained = True, xb = [[1, 0], [0, 1]]\<rparr>"

definition corrupt_blob_disk :: "int disk" where
  "corrupt_blob_disk = \<lparr>index_file = Some BlobGarbage, metadata_file = Some saved_sidecar,
                         index_writable = True, metadata_writable = True\<rparr>"

definition corrupt_sidecar_disk :: "int disk" where
  "corrupt_sidecar_disk = \<lparr>index_file = Some saved_blob, metadata_file = Some JsonGarbage,
                            index_writable = True, metadata_writable = True\<rparr>"

definition saved_disk :: "int disk" where
  "saved_disk = \<lparr>index_file = Some saved_blob, metadata_file = Some saved_sidecar,
                  index_writable = True, metadata_writable = True\<rparr>"

text \<open>
  An identity map as a dictionary of string keys: no key twice, every key a string.
\<close>

definition string_keys :: "(pyval \<times> nat) list \<Rightarrow> bool" where
  "string_keys ids = (distinct (map fst ids) \<and> list_all (\<lambda>(k, v). case k of VStr t \<Rightarrow> True | _ \<Rightarrow> False) ids)"

section \<open>Rejected and empty calls\<close>

text \<open>
  Claim C5. A call of \<open>add_documents\<close> whose embeddings and metadata differ in number
  raises the mismatch error and leaves the whole manager, its files included, as it was;
  a call with no embeddings and no metadata returns 0 and leaves the manager as it was.
\<close>

theorem add_documents_mismatch_or_empty:
  "(length embeddings \<noteq> length metas \<longrightarrow>
      add_documents f32 s embeddings metas dedup = (Inl ValueError, s)) \<and>
   add_documents f32 s [] [] dedup = (Inr 0, s)"
  by (simp add: add_documents_def)

theorem add_documents_mismatch_or_empty_witness:
  "length [[1::int, 0]] \<noteq> length ([] :: pydict list) \<and>
   add_documents id (init 2 ''flat'' empty_disk) [[1::int, 0]] [] True
     = (Inl ValueError, init 2 ''flat'' empty_disk) \<and>
   add_documents id (init 2 ''flat'' empty_disk) ([] :: int list list) [] True
     = (Inr 0, init 2 ''flat'' empty_disk)"
  using add_documents_mismatch_or_empty [of "[[1::int, 0]]" "[]" id "init 2 ''flat'' empty_disk" True]
  by simp

section \<open>The marks clause of a filter\<close>

text \<open>
  Claim C7. For a record and a filter whose topic, type and paper clauses pass: a record
  without a marks value is accepted whatever the marks bounds are; a record with the
  integer marks \<open>m\<close> is accepted exactly when \<open>m\<close> is at least the lower bound, if one
  is given, and at most the upper bound, if one is given. Marks 7 is rejected by a lower
  bound of 8 and accepted by the bounds 5 and 10.
\<close>

theorem marks_clause_decides:
  assumes "topic_clause meta f = Inr True" and "type_clause meta f = Inr True"
    and "paper_clause meta f = Inr True"
  shows "(dict_get meta ''marks'' = VNone \<longrightarrow> matches_filters meta f = Inr True) \<and>
   (\<forall>m. dict_get meta ''marks'' = VInt m \<longrightarrow>
      (dict_get f ''min_marks'' = VNone \<or> (\<exists>lo. dict_get f ''min_marks'' = VInt lo)) \<longrightarrow>
      (dict_get f ''max_marks'' = VNone \<or> (\<exists>hi. dict_get f ''max_marks'' = VInt hi)) \<longrightarrow>
      matches_filters meta f =
        Inr ((\<forall>lo. dict_get f ''min_marks'' = VInt lo \<longrightarrow> lo \<le> m) \<and>
             (\<forall>hi. dict_get f ''max_marks'' = VInt hi \<longrightarrow> m \<le> hi))) \<and>
   matches_filters [(''marks'', VInt 7)] [(''min_marks'', VInt 8)] = Inr False \<and>
   matches_filters [(''marks'', VInt 7)] [(''min_marks'', VInt 5), (''max_marks'', VInt 10)] = Inr True \<and>
   matches_filters [(''topic'', VStr ''Optics'')] [(''min_marks'', VInt 8)] = Inr True"
proof -
  have a: "dict_get meta ''marks'' = VNone \<longrightarrow> matches_filters meta f = Inr True"
    using assms by (simp add: matches_filters_def and_then_def marks_clause_def)
  have b: "\<forall>m. dict_get meta ''marks'' = VInt m \<longrightarrow>
      (dict_get f ''min_marks'' = VNone \<or> (\<exists>lo. dict_get f ''min_marks'' = VInt lo)) \<longrightarrow>
      (dict_get f ''max_marks'' = VNone \<or> (\<exists>hi. dict_get f ''max_marks'' = VInt hi)) \<longrightarrow>
      matches_filters meta f =
        Inr ((\<forall>lo. dict_get f ''min_marks'' = VInt lo \<longrightarrow> lo \<le> m) \<and>
             (\<forall>hi. dict_get f ''max_marks'' = VInt hi \<longrightarrow> m \<le> hi))"
    using assms by (auto simp: matches_filters_def and_then_def marks_clause_def)
  have c: "matches_filters [(''marks'', VInt 7)] [(''min_marks'', VInt 8)] = Inr False"
    by code_simp
  have d: "matches_filters [(''marks'', VInt 7)] [(''min_marks'', VInt 5), (''max_marks'', VInt 10)] = Inr True"
    by code_simp
  have e: "matches_filters [(''topic'', VStr ''Optics'')] [(''min_marks'', VInt 8)] = Inr True"
    by code_simp
  from a b c d e show ?thesis by blast
qed

theorem marks_clause_decides_witness:
  "topic_clause [(''marks'', VInt 7)] [(''min_marks'', VInt 8)] = Inr True \<and>
   type_clause [(''marks'', VInt 7)] [(''min_marks'', VInt 8)] = Inr True \<and>
   paper_clause [(''marks'', VInt 7)] [(''min_marks'', VInt 8)] = Inr True \<and>
   dict_get [(''marks'', VInt 7)] ''marks'' = VInt 7 \<and>
   dict_get [(''min_marks'', VInt 8)] ''min_marks'' = VInt 8 \<and>
   dict_get [(''min_marks'', VInt 8)] ''max_marks'' = VNone \<and>
   matches_filters [(''marks'', VInt 7)] [(''min_marks'', VInt 8)] = Inr False \<and>
   topic_clause [(''marks'', VNone)] [(''min_marks'', VInt 8)] = Inr True \<and>
   type_clause [(''marks'', VNone)] [(''min_marks'', VInt 8)] = Inr True \<and>
   paper_clause [(''marks'', VNone)] [(''min_marks'', VInt 8)] = Inr True \<and>
   dict_get [(''marks'', VNone)] ''marks'' = VNone \<and>
   matches_filters [(''marks'', VNone)] [(''min_marks'', VInt 8)] = Inr True"
proof -
  let ?m = "[(''marks'', VInt 7)]" and ?f = "[(''min_marks'', VInt 8)]"
  let ?n = "[(''marks'', VNone)]"
  have h1: "topic_clause ?m ?f = Inr True" by code_simp
  have h2: "type_clause ?m ?f = Inr True" by code_simp
  have h3: "paper_clause ?m ?f = Inr True" by code_simp
  have g1: "dict_get ?m ''marks'' = VInt 7" by code_simp
  have g2: "dict_get ?f ''min_marks'' = VInt 8" by code_simp
  have g3: "dict_get ?f ''max_marks'' = VNone" by code_simp
  have n1: "topic_clause ?n ?f = Inr True" by code_simp
  have n2: "type_clause ?n ?f = Inr True" by code_simp
  have n3: "paper_clause ?n ?f = Inr True" by code_simp
  have n4: "dict_get ?n ''marks'' = VNone" by code_simp
  note t = marks_clause_decides [OF h1 h2 h3, THEN conjunct2, THEN conjunct1, THEN spec, THEN mp, OF g1]
  from g2 g3 have "matches_filters ?m ?f =
     Inr ((\<forall>lo. dict_get ?f ''min_marks'' = VInt lo \<longrightarrow> lo \<le> 7) \<and>
          (\<forall>hi. dict_get ?f ''max_marks'' = VInt hi \<longrightarrow> 7 \<le> hi))"
    by (intro t [THEN mp, THEN mp]) blast+
  then have a: "matches_filters ?m ?f = Inr False" by (simp add: g2 g3)
  from marks_clause_decides [OF n1 n2 n3, THEN conjunct1] n4
  have b: "matches_filters ?n ?f = Inr True" by blast
  from h1 h2 h3 g1 g2 g3 a n1 n2 n3 n4 b show ?thesis by (intro conjI)
qed

section \<open>Properties of search\<close>

subsection \<open>The loop over the candidates\<close>

lemma py_index_in_range: "0 \<le> i \<Longrightarrow> i < int (length xs) \<Longrightarrow> py_index xs i = Inr (xs ! nat i)"
  by (simp add: py_index_def)

lemma collect_subseq:
  "collect md k f cands acc = Inr res \<Longrightarrow> \<forall>(sc, i) \<in> set cands. - 1 \<le> i
    \<Longrightarrow> \<exists>new. res = acc @ new \<and> subseq new (resolve md cands)"
proof (induction cands arbitrary: acc)
  case Nil
  then show ?case by (simp add: resolve_def)
next
  case (Cons c cands)
  obtain sc i where c: "c = (sc, i)" by (cases c)
  from Cons.prems(2) c have lab: "- 1 \<le> i" and rest: "\<forall>(sc, i) \<in> set cands. - 1 \<le> i" by auto
  show ?case
  proof (cases "i = - 1 \<or> i \<ge> int (length md)")
    case True
    with Cons.prems(1) c have "collect md k f cands acc = Inr res" by auto
    from Cons.IH [OF this rest] obtain new where "res = acc @ new" "subseq new (resolve md cands)" by blast
    moreover from True have "resolve md (c # cands) = resolve md cands" by (auto simp: resolve_def c)
    ultimately show ?thesis by auto
  next
    case False
    with lab have rng: "0 \<le> i" "i < int (length md)" by auto
    have r: "resolve md (c # cands) = (md ! nat i, sc) # resolve md cands"
      using rng by (simp add: resolve_def c)
    from False rng Cons.prems(1) c obtain ok where ok: "passes f (md ! nat i) = Inr ok"
      by (auto simp: py_index_in_range split: sum.splits)
    show ?thesis
    proof (cases ok)
      case False
      with \<open>\<not> (i = - 1 \<or> i \<ge> int (length md))\<close> rng ok Cons.prems(1) c
      have "collect md k f cands acc = Inr res" by (auto simp: py_index_in_range)
      from Cons.IH [OF this rest] obtain new where "res = acc @ new" "subseq new (resolve md cands)" by blast
      then show ?thesis unfolding r by auto
    next
      case True
      show ?thesis
      proof (cases "length (acc @ [(md ! nat i, sc)]) \<ge> k")
        case True
        with \<open>ok\<close> \<open>\<not> (i = - 1 \<or> i \<ge> int (length md))\<close> rng ok Cons.prems(1) c
        have "res = acc @ [(md ! nat i, sc)]" by (auto simp: py_index_in_range)
        then show ?thesis unfolding r by auto
      next
        case False
        with \<open>ok\<close> \<open>\<not> (i = - 1 \<or> i \<ge> int (length md))\<close> rng ok Cons.prems(1) c
        have "collect md k f cands (acc @ [(md ! nat i, sc)]) = Inr res" by (auto simp: py_index_in_range)
        from Cons.IH [OF this rest] obtain new where "res = (acc @ [(md ! nat i, sc)]) @ new" "subseq new (resolve md cands)" by blast
        then show ?thesis unfolding r by auto
      qed
    qed
  qed
qed

lemma collect_length:
  "collect md k f cands acc = Inr res \<Longrightarrow> length acc < k \<Longrightarrow> length res \<le> k"
proof (induction cands arbitrary: acc)
  case Nil
  then show ?case by simp
next
  case (Cons c cands)
  obtain sc i where c: "c = (sc, i)" by (cases c)
  from Cons.prems c Cons.IH show ?case
    by (auto split: if_splits sum.splits)
qed

lemma py_lt_no_index_error:
  "py_lt a b \<noteq> Inl IndexError" "py_list_lt as bs \<noteq> Inl IndexError"
  by (induction a b and as bs rule: py_lt_py_list_lt.induct) auto

lemma py_in_no_index_error: "py_in a b \<noteq> Inl IndexError"
  by (cases "(a, b)" rule: py_in.cases) auto

lemma any_topic_no_index_error: "any_topic t ts \<noteq> Inl IndexError"
  by (induction ts) (auto split: pyval.splits)

lemma topic_clause_no_index_error: "topic_clause meta f \<noteq> Inl IndexError"
  using any_topic_no_index_error
  by (simp add: topic_clause_def split: pyval.splits)

lemma type_clause_no_index_error: "type_clause meta f \<noteq> Inl IndexError"
  using py_in_no_index_error by (simp add: type_clause_def)

lemma paper_clause_no_index_error: "paper_clause meta f \<noteq> Inl IndexError"
  using py_in_no_index_error by (simp add: paper_clause_def)

lemma marks_clause_no_index_error: "marks_clause meta f \<noteq> Inl IndexError"
  using py_lt_no_index_error(1)
  by (auto simp: marks_clause_def Let_def split: sum.splits)

lemma and_then_no_index_error:
  "a \<noteq> Inl IndexError \<Longrightarrow> b \<noteq> Inl IndexError \<Longrightarrow> and_then a b \<noteq> Inl IndexError"
  by (cases a) (auto simp: and_then_def)

lemma matches_filters_no_index_error: "matches_filters meta f \<noteq> Inl IndexError"
  unfolding matches_filters_def
  by (intro and_then_no_index_error topic_clause_no_index_error type_clause_no_index_error
      paper_clause_no_index_error marks_clause_no_index_error)

lemma passes_no_index_error: "passes f meta \<noteq> Inl IndexError"
  using matches_filters_no_index_error by (auto simp: passes_def split: option.splits)

lemma collect_no_index_error:
  "\<forall>(sc, i) \<in> set cands. - 1 \<le> i \<Longrightarrow> collect md k f cands acc \<noteq> Inl IndexError"
proof (induction cands arbitrary: acc)
  case Nil
  then show ?case by simp
next
  case (Cons c cands)
  obtain sc i where c: "c = (sc, i)" by (cases c)
  from Cons.prems c have lab: "- 1 \<le> i" and rest: "\<forall>(sc, i) \<in> set cands. - 1 \<le> i" by auto
  from lab Cons.IH [OF rest] passes_no_index_error show ?case
    by (auto simp: c py_index_def split: sum.splits)
qed



lemma subseq_keeps_sorted_wrt:
  "subseq xs ys \<Longrightarrow> sorted_wrt P ys \<Longrightarrow> sorted_wrt P xs"
proof (induction rule: list_emb.induct)
  case (list_emb_Cons2 x y xs ys)
  then show ?case using list_emb_set by fastforce
qed auto

lemma subseq_set_subset: "subseq xs ys \<Longrightarrow> set xs \<subseteq> set ys"
  by (induction rule: list_emb.induct) auto

lemma exact_ip_labels:
  "exact_ip ix q w = Inr cands \<Longrightarrow> \<forall>(sc, i) \<in> set cands. - 1 \<le> i"
  by (auto simp: exact_ip_def Let_def split: if_splits dest!: in_set_takeD set_zip_rightD)

subsection \<open>Width of the request, number and order of the results\<close>

text \<open>
  Claim C8. On a non-empty index and for \<open>k\<close> at least 1, \<open>search\<close> asks the library for
  \<open>min (3 * k) size\<close> candidates when a filter is given, and for \<open>k\<close> when the filter is
  \<open>None\<close> or the empty dictionary, which the code treats alike; its answer is what the
  loop makes of the candidates of that one request. It returns at most \<open>k\<close> pairs, they
  are a subsequence of the candidates resolved to their records, and their scores are
  descending when the candidates' scores are.
\<close>

theorem search_width_and_order:
  fixes nn :: "'a faiss_index \<Rightarrow> 'a list \<Rightarrow> nat \<Rightarrow> error + ('s::preorder \<times> int) list"
  assumes "size_of s \<noteq> 0" and "1 \<le> k"
    and "nn (fst (the_index s)) (map f32 q)
           (if filt = None \<or> filt = Some [] then k else min (3 * k) (size_of s)) = Inr cands"
    and "\<forall>(sc, i) \<in> set cands. - 1 \<le> i"
  shows "search f32 nn s q k filt = collect (metadata s) k filt cands [] \<and>
         (\<forall>res. search f32 nn s q k filt = Inr res \<longrightarrow>
            length res \<le> k \<and> subseq res (resolve (metadata s) cands) \<and>
            (sorted_wrt (\<ge>) (map fst cands) \<longrightarrow> sorted_wrt (\<ge>) (map snd res)))"
proof -
  have w: "(if filters_given filt then min (k * 3) (size_of s) else k)
           = (if filt = None \<or> filt = Some [] then k else min (3 * k) (size_of s))"
    by (auto simp: filters_given_def mult.commute split: option.splits)
  have eq: "search f32 nn s q k filt = collect (metadata s) k filt cands []"
    using assms(1,3) by (simp add: search_def Let_def w)
  have "length res \<le> k \<and> subseq res (resolve (metadata s) cands) \<and>
            (sorted_wrt (\<ge>) (map fst cands) \<longrightarrow> sorted_wrt (\<ge>) (map snd res))"
    if r: "collect (metadata s) k filt cands [] = Inr res" for res
  proof -
    from collect_length [OF r] assms(2) have len: "length res \<le> k" by simp
    from collect_subseq [OF r assms(4)] have sub: "subseq res (resolve (metadata s) cands)" by simp
    have "map snd (resolve (metadata s) cands)
            = map fst (filter (\<lambda>(sc, i). 0 \<le> i \<and> i < int (length (metadata s))) cands)"
      by (simp add: resolve_def case_prod_unfold comp_def)
    then have "subseq (map snd (resolve (metadata s) cands)) (map fst cands)"
      by (simp add: subseq_map)
    with subseq_map [OF sub, of snd] have "subseq (map snd res) (map fst cands)"
      using subseq_order.order_trans by blast
    then have "sorted_wrt (\<ge>) (map fst cands) \<longrightarrow> sorted_wrt (\<ge>) (map snd res)"
      using subseq_keeps_sorted_wrt by blast
    with len sub show ?thesis by simp
  qed
  with eq show ?thesis by simp
qed



theorem search_width_and_order_witness:
  "size_of example_index \<noteq> 0 \<and> (1::nat) \<le> 1 \<and>
   exact_ip (fst (the_index example_index)) (map id [1, 0]) (min (3 * 1) (size_of example_index))
     = Inr [(1, 0), (0, 1)] \<and>
   (- 1 :: int) \<le> 0 \<and> (- 1 :: int) \<le> 1 \<and>
   search id exact_ip example_index [1, 0] 1 (Some [(''min_marks'', VInt 8)]) = Inr [(q2, 0)] \<and>
   subseq [(q2, 0::int)] (resolve (metadata example_index) [(1, 0), (0, 1)])"
proof -
  let ?f = "Some [(''min_marks'', VInt 8)]"
  have h1: "size_of example_index \<noteq> 0" by code_simp
  have h2: "(1::nat) \<le> 1" by simp
  have h3: "exact_ip (fst (the_index example_index)) (map id [1, 0])
              (if ?f = None \<or> ?f = Some [] then 1 else min (3 * 1) (size_of example_index))
            = Inr [(1, 0), (0, 1)]" by code_simp
  have h4: "\<forall>(sc, i) \<in> set [(1::int, 0::int), (0, 1)]. - 1 \<le> i" by simp
  have r: "collect (metadata example_index) 1 ?f [(1::int, 0), (0, 1)] [] = Inr [(q2, 0)]" by code_simp
  note t = search_width_and_order [where nn = exact_ip and ?f32.0 = id and s = example_index
      and q = "[1, 0]" and k = 1 and filt = ?f and cands = "[(1, 0), (0, 1)]", OF h1 h2 h3 h4]
  have h3': "exact_ip (fst (the_index example_index)) (map id [1, 0]) (min (3 * 1) (size_of example_index))
     = Inr [(1, 0), (0, 1)]" by code_simp
  from t r have s: "search id exact_ip example_index [1, 0] 1 ?f = Inr [(q2, 0)]" by simp
  with t have "subseq [(q2, 0::int)] (resolve (metadata example_index) [(1, 0), (0, 1)])" by blast
  with s h1 h3' show ?thesis by simp
qed

subsection \<open>Candidate positions are checked before the metadata is read\<close>

text \<open>
  Claim C9. When the library labels every candidate with a position or with \<open>- 1\<close>,
  \<open>search\<close> raises no index error of its own, for any manager, query, \<open>k\<close> and filter,
  and every record it returns is the metadata stored at the position of a candidate,
  that position being within the metadata list. A candidate labelled \<open>- 1\<close>, and one
  labelled with a position at or beyond the length of the metadata list, is passed over.
\<close>

theorem search_reads_in_range:
  fixes nn :: "'a faiss_index \<Rightarrow> 'a list \<Rightarrow> nat \<Rightarrow> error + ('s \<times> int) list"
  assumes "\<forall>w cands. nn (fst (the_index s)) (map f32 q) w = Inr cands
             \<longrightarrow> (\<forall>(sc, i) \<in> set cands. - 1 \<le> i)"
  shows "(search f32 nn s q k filt = Inl IndexError
            \<longrightarrow> (\<exists>w. nn (fst (the_index s)) (map f32 q) w = Inl IndexError)) \<and>
         (\<forall>res. search f32 nn s q k filt = Inr res \<longrightarrow>
            (\<forall>(meta, sc) \<in> set res. \<exists>i. 0 \<le> i \<and> i < int (length (metadata s)) \<and>
                 meta = metadata s ! nat i \<and> py_index (metadata s) i = Inr meta)) \<and>
         (\<forall>md (sc :: 's) rest acc. collect md k filt ((sc, - 1) # rest) acc = collect md k filt rest acc) \<and>
         (\<forall>md (sc :: 's) i rest acc. i \<ge> int (length md) \<longrightarrow>
            collect md k filt ((sc, i) # rest) acc = collect md k filt rest acc)"
proof -
  let ?w = "if filters_given filt then min (k * 3) (size_of s) else k"
  let ?nn = "nn (fst (the_index s)) (map f32 q)"
  have a: "\<exists>w. ?nn w = Inl IndexError" if e: "search f32 nn s q k filt = Inl IndexError"
  proof (cases "?nn ?w")
    case (Inl x)
    with e show ?thesis by (auto simp: search_def Let_def split: if_splits)
  next
    case (Inr cands)
    with assms have "\<forall>(sc, i) \<in> set cands. - 1 \<le> i" by blast
    from collect_no_index_error [OF this] Inr e show ?thesis
      by (auto simp: search_def Let_def split: if_splits)
  qed
  have b: "\<exists>i. 0 \<le> i \<and> i < int (length (metadata s)) \<and>
                 meta = metadata s ! nat i \<and> py_index (metadata s) i = Inr meta"
    if r: "search f32 nn s q k filt = Inr res" and m: "(meta, sc) \<in> set res" for res meta sc
  proof (cases "size_of s = 0")
    case True
    with r m show ?thesis by (simp add: search_def)
  next
    case False
    with r obtain cands where c: "?nn ?w = Inr cands"
      and col: "collect (metadata s) k filt cands [] = Inr res"
      by (auto simp: search_def Let_def split: sum.splits)
    from c assms have "\<forall>(sc, i) \<in> set cands. - 1 \<le> i" by blast
    from collect_subseq [OF col this] have sub: "subseq res (resolve (metadata s) cands)" by simp
    from subseq_set_subset [OF sub] m have "(meta, sc) \<in> set (resolve (metadata s) cands)" by blast
    then obtain i where i: "0 \<le> i" "i < int (length (metadata s))" "meta = metadata s ! nat i"
      by (auto simp: resolve_def)
    then have "py_index (metadata s) i = Inr meta" by (simp add: py_index_in_range)
    with i show ?thesis by blast
  qed
  have c: "collect md k filt ((sc, - 1) # rest) acc = collect md k filt rest acc"
    for md and sc :: 's and rest acc
    by simp
  have d: "collect md k filt ((sc, i) # rest) acc = collect md k filt rest acc"
    if "i \<ge> int (length md)" for md and sc :: 's and i rest acc
    using that by simp
  show ?thesis
  proof (intro conjI allI impI)
    assume "search f32 nn s q k filt = Inl IndexError"
    then show "\<exists>w. ?nn w = Inl IndexError" by (rule a)
  next
    fix res assume "search f32 nn s q k filt = Inr res"
    then show "\<forall>(meta, sc) \<in> set res. \<exists>i. 0 \<le> i \<and> i < int (length (metadata s)) \<and>
                 meta = metadata s ! nat i \<and> py_index (metadata s) i = Inr meta"
      using b by blast
  qed (simp_all only: c d)
qed

theorem search_reads_in_range_witness:
  "search id exact_ip example_index [1, 0] 5 None = Inr [(q1, 1), (q2, 0)] \<and>
   (\<exists>i. 0 \<le> i \<and> i < int (length (metadata example_index)) \<and>
        q1 = metadata example_index ! nat i \<and> py_index (metadata example_index) i = Inr q1) \<and>
   (\<exists>i. 0 \<le> i \<and> i < int (length (metadata example_index)) \<and>
        q2 = metadata example_index ! nat i \<and> py_index (metadata example_index) i = Inr q2)"
proof -
  have h: "\<forall>w cands. exact_ip (fst (the_index example_index)) (map id [1, 0]) w = Inr cands
             \<longrightarrow> (\<forall>(sc, i) \<in> set cands. - 1 \<le> i)"
    using exact_ip_labels by blast
  have r: "search id exact_ip example_index [1, 0] 5 None = Inr [(q1, 1), (q2, 0)]" by code_simp
  note t = search_reads_in_range [where nn = exact_ip and ?f32.0 = id and s = example_index
      and q = "[1, 0]" and k = 5 and filt = None, OF h]
  note u = t [THEN conjunct2, THEN conjunct1, THEN spec, THEN mp, OF r]
  from u have "\<exists>i. 0 \<le> i \<and> i < int (length (metadata example_index)) \<and>
        q1 = metadata example_index ! nat i \<and> py_index (metadata example_index) i = Inr q1"
    by simp
  moreover from u have "\<exists>i. 0 \<le> i \<and> i < int (length (metadata example_index)) \<and>
        q2 = metadata example_index ! nat i \<and> py_index (metadata example_index) i = Inr q2"
    by simp
  ultimately show ?thesis using r by blast
qed

section \<open>Properties of adding documents\<close>

subsection \<open>The deduplicating loop\<close>

lemma dedup_loop_new:
  "dedup_loop n ps ne nm ids = (r, ne', nm', ids')
    \<Longrightarrow> \<exists>new. ne' = ne @ map fst new \<and> nm' = nm @ map snd new \<and> subseq new ps"
proof (induction ps arbitrary: ne nm ids)
  case Nil
  then show ?case by simp
next
  case (Cons p ps)
  obtain emb meta where p: "p = (emb, meta)" by (cases p)
  show ?case
  proof (cases "hashable (doc_id meta)")
    case False
    with Cons.prems p show ?thesis by auto
  next
    case True
    show ?thesis
    proof (cases "map_of ids (doc_id meta) = None")
      case True
      with \<open>hashable (doc_id meta)\<close> Cons.prems p
      have "dedup_loop n ps (ne @ [emb]) (nm @ [meta])
              (AList.update (doc_id meta) (n + length (nm @ [meta]) - 1) ids) = (r, ne', nm', ids')"
        by simp
      from Cons.IH [OF this] obtain new where
        "ne' = (ne @ [emb]) @ map fst new" "nm' = (nm @ [meta]) @ map snd new" "subseq new ps"
        by blast
      then have "ne' = ne @ map fst (p # new) \<and> nm' = nm @ map snd (p # new) \<and> subseq (p # new) (p # ps)"
        by (simp add: p)
      then show ?thesis by blast
    next
      case False
      with \<open>hashable (doc_id meta)\<close> Cons.prems p
      have "dedup_loop n ps ne nm ids = (r, ne', nm', ids')" by simp
      from Cons.IH [OF this] obtain new where
        "ne' = ne @ map fst new" "nm' = nm @ map snd new" "subseq new ps" by blast
      then show ?thesis by auto
    qed
  qed
qed

lemma dedup_loop_keeps:
  "dedup_loop n ps ne nm ids = (r, ne', nm', ids') \<Longrightarrow> map_of ids k \<noteq> None
    \<Longrightarrow> map_of ids' k \<noteq> None"
proof (induction ps arbitrary: ne nm ids)
  case Nil
  then show ?case by simp
next
  case (Cons p ps)
  obtain emb meta where p: "p = (emb, meta)" by (cases p)
  from Cons.prems p Cons.IH show ?case
    by (auto simp: update_conv' split: if_splits)
qed

lemma dedup_loop_registers:
  "dedup_loop n ps ne nm ids = (r, ne', nm', ids') \<Longrightarrow> \<forall>(e, m) \<in> set ps. hashable (doc_id m)
    \<Longrightarrow> r = None \<and> (\<forall>(e, m) \<in> set ps. map_of ids' (doc_id m) \<noteq> None)"
proof (induction ps arbitrary: ne nm ids)
  case Nil
  then show ?case by simp
next
  case (Cons p ps)
  obtain emb meta where p: "p = (emb, meta)" by (cases p)
  from Cons.prems(2) p have h: "hashable (doc_id meta)" and hs: "\<forall>(e, m) \<in> set ps. hashable (doc_id m)"
    by auto
  show ?case
  proof (cases "map_of ids (doc_id meta) = None")
    case True
    with h Cons.prems(1) p
    have l: "dedup_loop n ps (ne @ [emb]) (nm @ [meta])
              (AList.update (doc_id meta) (n + length (nm @ [meta]) - 1) ids) = (r, ne', nm', ids')"
      by simp
    have "map_of (AList.update (doc_id meta) (n + length (nm @ [meta]) - 1) ids) (doc_id meta) \<noteq> None"
      by (simp add: update_conv')
    from dedup_loop_keeps [OF l this] Cons.IH [OF l hs] show ?thesis by (simp add: p)
  next
    case False
    with h Cons.prems(1) p have l: "dedup_loop n ps ne nm ids = (r, ne', nm', ids')" by simp
    from dedup_loop_keeps [OF l False] Cons.IH [OF l hs] show ?thesis by (simp add: p)
  qed
qed

lemma dedup_loop_all_known:
  "\<forall>(e, m) \<in> set ps. hashable (doc_id m) \<and> map_of ids (doc_id m) \<noteq> None
    \<Longrightarrow> dedup_loop n ps ne nm ids = (None, ne, nm, ids)"
  by (induction ps) auto

subsection \<open>What a call leaves untouched\<close>

lemma the_index_frame:
  "id_to_idx (snd (the_index s)) = id_to_idx s"
  "metadata (snd (the_index s)) = metadata s"
  "index_type (snd (the_index s)) = index_type s"
  "dimension (snd (the_index s)) = dimension s"
  "files (snd (the_index s)) = files s"
  "index (snd (the_index s)) = Some (fst (the_index s))"
  "fst (the_index s) = (case index s of None \<Rightarrow> new_index s | Some ix \<Rightarrow> ix)"
  by (cases "index s"; simp add: the_index_def create_index_def)+

lemma save_index_frame:
  "id_to_idx (snd (save_index s)) = id_to_idx s"
  "metadata (snd (save_index s)) = metadata s"
  "index_type (snd (save_index s)) = index_type s"
  "dimension (snd (save_index s)) = dimension s"
  "index (snd (save_index s)) = index s"
  by (cases "index s"; simp add: save_index_def Let_def)+

lemma train_step_frame:
  "id_to_idx (snd (train_step s e)) = id_to_idx s"
  "metadata (snd (train_step s e)) = metadata s"
  "dimension (snd (train_step s e)) = dimension s"
  "files (snd (train_step s e)) = files s"
  by (cases "index s"; cases "faiss_train (new_index s) e"; cases "faiss_train (the (index s)) e";
      simp add: train_step_def the_index_def create_index_def)+

text \<open>The three ways a commit can end.\<close>

lemma commit_cases:
  assumes "commit s e m = (r, s')"
  obtains (train_failed) x where "train_step s e = (Some x, s')" "r = Inl x"
  | (add_failed) s1 x where "train_step s e = (None, s1)" "s' = snd (the_index s1)"
      "faiss_add (fst (the_index s1)) e = Inl x" "r = Inl x"
  | (added) s1 ix' where "train_step s e = (None, s1)"
      "faiss_add (fst (the_index s1)) e = Inr ix'"
      "s' = snd (save_index ((snd (the_index s1))\<lparr>index := Some ix', metadata := metadata s1 @ m\<rparr>))"
      "r = Inl OSError \<or> r = Inl TypeError \<or> r = Inr (length e)"
proof -
  obtain r1 s1 where t: "train_step s e = (r1, s1)" by (cases "train_step s e")
  show ?thesis
  proof (cases r1)
    case (Some x)
    with assms t have "s' = s1" "r = Inl x" by (simp_all add: commit_def)
    with t Some show ?thesis using train_failed by simp
  next
    case None
    obtain ix s2 where i: "the_index s1 = (ix, s2)" by (cases "the_index s1")
    show ?thesis
    proof (cases "faiss_add ix e")
      case (Inl x)
      with assms t None i have "s' = s2" "r = Inl x" by (simp_all add: commit_def)
      with t None i Inl show ?thesis using add_failed [of s1 x] by simp
    next
      case (Inr ix')
      let ?s3 = "s2\<lparr>index := Some ix', metadata := metadata s2 @ m\<rparr>"
      obtain r3 s3 where sv: "save_index ?s3 = (r3, s3)" by (cases "save_index ?s3")
      have r3: "r3 = None \<or> r3 = Some OSError \<or> r3 = Some TypeError"
        using sv by (auto simp: save_index_def Let_def split: option.splits if_splits)
      from assms t None i Inr sv have "s' = s3" "r = (case r3 of Some e \<Rightarrow> Inl e | None \<Rightarrow> Inr (length e))"
        by (cases r3; simp add: commit_def)+
      moreover have "metadata s2 = metadata s1" using the_index_frame(2) [of s1] i by simp
      ultimately show ?thesis using added [of s1 ix'] t None i Inr sv r3 by auto
    qed
  qed
qed

lemma commit_frame:
  "id_to_idx (snd (commit s e m)) = id_to_idx s"
  "dimension (snd (commit s e m)) = dimension s"
proof -
  obtain r s' where c: "commit s e m = (r, s')" by (cases "commit s e m")
  have "id_to_idx s' = id_to_idx s \<and> dimension s' = dimension s"
    using c
  proof (cases rule: commit_cases)
    case (train_failed x)
    then show ?thesis using train_step_frame [of s e] by simp
  next
    case (add_failed s1 x)
    then show ?thesis using train_step_frame [of s e] the_index_frame [of s1] by simp
  next
    case (added s1 ix')
    then show ?thesis using train_step_frame [of s e] the_index_frame [of s1]
      by (simp add: save_index_frame)
  qed
  with c show "id_to_idx (snd (commit s e m)) = id_to_idx s" "dimension (snd (commit s e m)) = dimension s"
    by simp_all
qed

subsection \<open>Repeating a batch\<close>

text \<open>
  Claim C2. For a batch of as many rows as records, each record with a hashable
  identifier: when \<open>add_documents\<close> has been called on the batch with deduplication,
  however that call ended, calling it again on the same batch with deduplication returns
  0 and leaves the manager as it was, so its size, metadata and identity map.
\<close>

theorem dedup_second_call_adds_nothing:
  assumes "length embeddings = length metas"
    and "\<forall>m \<in> set metas. hashable (doc_id m)"
    and "add_documents f32 s embeddings metas True = (r1, s1)"
  shows "add_documents f32 s1 embeddings metas True = (Inr 0, s1) \<and>
         size_of (snd (add_documents f32 s1 embeddings metas True)) = size_of s1"
proof (cases "embeddings = []")
  case True
  with assms show ?thesis by (simp add: add_documents_def)
next
  case False
  let ?ps = "zip (map (map f32) embeddings) metas"
  obtain r ne nm ids where l: "dedup_loop (length (metadata s)) ?ps [] [] (id_to_idx s) = (r, ne, nm, ids)"
    by (cases "dedup_loop (length (metadata s)) ?ps [] [] (id_to_idx s)") auto
  have h: "\<forall>(e, m) \<in> set ?ps. hashable (doc_id m)"
    using assms(2) by (auto dest: set_zip_rightD)
  from dedup_loop_registers [OF l h] have r: "r = None"
    and known: "\<forall>(e, m) \<in> set ?ps. map_of ids (doc_id m) \<noteq> None" by simp_all
  from assms(1) False have ne_metas: "metas \<noteq> []" by auto
  have s1: "s1 = (if ne = [] then s\<lparr>id_to_idx := ids\<rparr> else snd (commit (s\<lparr>id_to_idx := ids\<rparr>) ne nm))"
    using assms(1,3) False ne_metas l r by (auto simp: add_documents_def Let_def)
  then have ids: "id_to_idx s1 = ids" by (simp add: commit_frame)
  from h known have "\<forall>(e, m) \<in> set ?ps. hashable (doc_id m) \<and> map_of ids (doc_id m) \<noteq> None"
    by auto
  from dedup_loop_all_known [OF this]
  have "dedup_loop (length (metadata s1)) ?ps [] [] (id_to_idx s1) = (None, [], [], id_to_idx s1)"
    by (simp add: ids)
  with assms(1) False ne_metas have "add_documents f32 s1 embeddings metas True = (Inr 0, s1)"
    by (simp add: add_documents_def Let_def)
  then show ?thesis by simp
qed

theorem dedup_second_call_adds_nothing_witness:
  "length [[1, 0], [0, 1 :: int]] = length [q1, q2] \<and>
   hashable (doc_id q1) \<and> hashable (doc_id q2) \<and>
   add_documents id (init 2 ''flat'' empty_disk) [[1, 0], [0, 1]] [q1, q2] True = (Inr 2, example_index) \<and>
   add_documents id example_index [[1, 0], [0, 1]] [q1, q2] True = (Inr 0, example_index) \<and>
   size_of example_index = 2"
proof -
  have h1: "length [[1, 0], [0, 1 :: int]] = length [q1, q2]" by simp
  have g: "hashable (doc_id q1)" "hashable (doc_id q2)" by code_simp+
  then have h2: "\<forall>m \<in> set [q1, q2]. hashable (doc_id m)" by simp
  have h3: "add_documents id (init 2 ''flat'' empty_disk) [[1, 0], [0, 1]] [q1, q2] True = (Inr 2, example_index)"
    by code_simp
  have sz: "size_of example_index = 2" by code_simp
  from dedup_second_call_adds_nothing [OF h1 h2 h3] h1 g h3 sz show ?thesis by simp
qed

subsection \<open>Rows and records stay aligned\<close>

lemma faiss_train_xb: "faiss_train ix e = Inr ix' \<Longrightarrow> xb ix' = xb ix \<and> is_trained ix'"
  by (auto simp: faiss_train_def split: if_splits)

lemma faiss_add_xb: "faiss_add ix e = Inr ix' \<Longrightarrow> xb ix' = xb ix @ e \<and> is_trained ix'"
  by (auto simp: faiss_add_def split: if_splits)

lemma the_index_vectors:
  "vectors (snd (the_index s)) = vectors s" "xb (fst (the_index s)) = vectors s"
  "aligned s \<Longrightarrow> is_trained (fst (the_index s)) \<or> xb (fst (the_index s)) = []"
  by (cases "index s"; simp add: vectors_def the_index_def create_index_def new_index_def aligned_def)+

lemma train_step_aligned:
  assumes "aligned s"
  shows "vectors (snd (train_step s e)) = vectors s"
    and "aligned (snd (train_step s e))"
proof -
  from assms have len: "length (vectors s) = length (metadata s)" by (simp add: aligned_def)
  show "vectors (snd (train_step s e)) = vectors s"
  proof (cases "index_type s = ''ivf'' \<and> \<not> trained s")
    case False
    then show ?thesis by (auto simp: train_step_def)
  next
    case True
    with assms have emp: "vectors s = []"
      by (cases "index s") (auto simp: aligned_def trained_def vectors_def)
    show ?thesis
    proof (cases "length e \<ge> IVF_NLIST")
      case False
      with True emp show ?thesis by (simp add: train_step_def create_index_def new_index_def vectors_def)
    next
      case big: True
      show ?thesis
      proof (cases "faiss_train (fst (the_index s)) e")
        case (Inl x)
        with True big show ?thesis
          by (simp add: train_step_def case_prod_unfold the_index_vectors)
      next
        case (Inr ix')
        from faiss_train_xb [OF Inr] the_index_vectors(2) [of s] have "xb ix' = vectors s" by simp
        with Inr True big show ?thesis
          by (simp add: train_step_def case_prod_unfold vectors_def)
      qed
    qed
  qed
  then have len': "length (vectors (snd (train_step s e))) = length (metadata (snd (train_step s e)))"
    using len by (simp add: train_step_frame)
  have "case index (snd (train_step s e)) of None \<Rightarrow> True | Some ix \<Rightarrow> is_trained ix \<or> xb ix = []"
  proof (cases "index_type s = ''ivf'' \<and> \<not> trained s")
    case False
    with assms show ?thesis by (auto simp: train_step_def aligned_def)
  next
    case True
    show ?thesis
    proof (cases "length e \<ge> IVF_NLIST")
      case False
      with True show ?thesis by (simp add: train_step_def create_index_def new_index_def)
    next
      case big: True
      show ?thesis
      proof (cases "faiss_train (fst (the_index s)) e")
        case (Inl x)
        with True big the_index_vectors(3) [OF assms] show ?thesis
          by (simp add: train_step_def case_prod_unfold the_index_frame)
      next
        case (Inr ix')
        with True big faiss_train_xb [OF Inr] show ?thesis
          by (simp add: train_step_def case_prod_unfold)
      qed
    qed
  qed
  with len' show "aligned (snd (train_step s e))" by (simp add: aligned_def)
qed

lemma save_index_aligned:
  "vectors (snd (save_index s)) = vectors s" "aligned (snd (save_index s)) = aligned s"
  by (simp_all add: vectors_def aligned_def save_index_frame)

lemma commit_aligned:
  assumes "aligned s" and "length e = length m" and "commit s e m = (r, s')"
  shows "aligned s' \<and>
         (vectors s' = vectors s \<and> metadata s' = metadata s \<and> (\<forall>n. r \<noteq> Inr n) \<or>
          vectors s' = vectors s @ e \<and> metadata s' = metadata s @ m \<and> (\<forall>n. r = Inr n \<longrightarrow> n = length e))"
  using assms(3)
proof (cases rule: commit_cases)
  case (train_failed x)
  then have "s' = snd (train_step s e)" by simp
  with train_step_aligned [OF assms(1), of e] train_failed(2) show ?thesis
    by (simp add: train_step_frame)
next
  case (add_failed s1 x)
  then have s1: "s1 = snd (train_step s e)" by simp
  with train_step_aligned [OF assms(1), of e] have a1: "aligned s1" "vectors s1 = vectors s" by simp_all
  from a1(1) have "aligned (snd (the_index s1))"
    using the_index_vectors [of s1]
    by (simp add: aligned_def the_index_frame)
  with add_failed a1 s1 show ?thesis
    by (simp add: the_index_vectors the_index_frame train_step_frame)
next
  case (added s1 ix')
  then have s1: "s1 = snd (train_step s e)" by simp
  with train_step_aligned [OF assms(1), of e] have a1: "aligned s1" "vectors s1 = vectors s" by simp_all
  from faiss_add_xb [OF added(2)] the_index_vectors(2) [of s1] a1
  have ix': "xb ix' = vectors s @ e" "is_trained ix'" by simp_all
  let ?s3 = "(snd (the_index s1))\<lparr>index := Some ix', metadata := metadata s1 @ m\<rparr>"
  have md: "metadata s1 = metadata s" using s1 by (simp add: train_step_frame)
  from assms(1) have "length (vectors s) = length (metadata s)" by (simp add: aligned_def)
  with ix' assms(2) md have "aligned ?s3" "vectors ?s3 = vectors s @ e" "metadata ?s3 = metadata s @ m"
    by (simp_all add: aligned_def vectors_def)
  with added(3,4) show ?thesis
    by (auto simp: save_index_aligned save_index_frame)
qed

lemma add_documents_aligned:
  assumes "aligned s" and "add_documents f32 s embeddings metas dedup = (r, s')"
  shows "aligned s' \<and>
         (\<exists>new. zip (vectors s') (metadata s') = zip (vectors s) (metadata s) @ new \<and>
                 set new \<subseteq> set (zip (map (map f32) embeddings) metas) \<and>
                 (\<forall>n. r = Inr n \<longrightarrow> length (metadata s') = length (metadata s) + n))"
proof -
  let ?ps = "zip (map (map f32) embeddings) metas"
  have same: "aligned s' \<and> (\<exists>new. zip (vectors s') (metadata s') = zip (vectors s) (metadata s) @ new \<and>
                 set new \<subseteq> set ?ps \<and>
                 (\<forall>n. r = Inr n \<longrightarrow> length (metadata s') = length (metadata s) + n))"
    if "vectors s' = vectors s" "metadata s' = metadata s" "index s' = index s" "\<forall>n. r = Inr n \<longrightarrow> n = 0"
    using that assms(1) by (auto simp: aligned_def)
  have via_commit: "aligned s' \<and> (\<exists>new. zip (vectors s') (metadata s') = zip (vectors s) (metadata s) @ new \<and>
                 set new \<subseteq> set ?ps \<and>
                 (\<forall>n. r = Inr n \<longrightarrow> length (metadata s') = length (metadata s) + n))"
    if c: "commit (s\<lparr>id_to_idx := ids\<rparr>) e m = (r, s')" and l: "length e = length m"
      and sub: "set (zip e m) \<subseteq> set ?ps" for ids e m
  proof -
    let ?s0 = "s\<lparr>id_to_idx := ids\<rparr>"
    from assms(1) have a0: "aligned ?s0" "vectors ?s0 = vectors s" "metadata ?s0 = metadata s"
      by (simp_all add: aligned_def vectors_def)
    from assms(1) have len: "length (vectors s) = length (metadata s)" by (simp add: aligned_def)
    from commit_aligned [OF a0(1) l c] a0
    have al: "aligned s'" and d: "vectors s' = vectors s \<and> metadata s' = metadata s \<and> (\<forall>n. r \<noteq> Inr n) \<or>
          vectors s' = vectors s @ e \<and> metadata s' = metadata s @ m \<and> (\<forall>n. r = Inr n \<longrightarrow> n = length e)"
      by simp_all
    from d show ?thesis
    proof
      assume "vectors s' = vectors s \<and> metadata s' = metadata s \<and> (\<forall>n. r \<noteq> Inr n)"
      with al show ?thesis by simp
    next
      assume x: "vectors s' = vectors s @ e \<and> metadata s' = metadata s @ m \<and> (\<forall>n. r = Inr n \<longrightarrow> n = length e)"
      with len have "zip (vectors s') (metadata s') = zip (vectors s) (metadata s) @ zip e m" by simp
      with al x sub l show ?thesis by auto
    qed
  qed
  show ?thesis
  proof (cases "length embeddings \<noteq> length metas \<or> length embeddings = 0")
    case True
    with assms(2) have "s' = s" "\<forall>n. r = Inr n \<longrightarrow> n = 0"
      by (auto simp: add_documents_def split: if_splits)
    then show ?thesis using same by simp
  next
    case False
    then have le: "length embeddings = length metas" "length embeddings \<noteq> 0" "metas \<noteq> []"
      "embeddings \<noteq> []" by auto
    show ?thesis
    proof (cases dedup)
      case True
      obtain r0 ne nm ids where l: "dedup_loop (length (metadata s)) ?ps [] [] (id_to_idx s) = (r0, ne, nm, ids)"
        by (cases "dedup_loop (length (metadata s)) ?ps [] [] (id_to_idx s)") auto
      from dedup_loop_new [OF l] obtain new where new: "ne = map fst new" "nm = map snd new" "subseq new ?ps"
        by auto
      then have z: "length ne = length nm" "zip ne nm = new" by (simp_all add: zip_map_fst_snd)
      from new(3) have sub: "set (zip ne nm) \<subseteq> set ?ps" using z subseq_set_subset by blast
      show ?thesis
      proof (cases "r0 = None \<and> ne \<noteq> []")
        case True
        with assms(2) le l \<open>dedup\<close> have "commit (s\<lparr>id_to_idx := ids\<rparr>) ne nm = (r, s')"
          by (simp add: add_documents_def Let_def)
        from via_commit [OF this z(1) sub] show ?thesis .
      next
        case False
        with assms(2) le l \<open>dedup\<close> have "s' = s\<lparr>id_to_idx := ids\<rparr>" "\<forall>n. r = Inr n \<longrightarrow> n = 0"
          by (auto simp: add_documents_def Let_def split: option.splits if_splits)
        then show ?thesis using same by (simp add: vectors_def)
      qed
    next
      case nd: False
      obtain r0 ids where l: "register_loop (length (metadata s)) 0 metas (id_to_idx s) = (r0, ids)"
        by (cases "register_loop (length (metadata s)) 0 metas (id_to_idx s)")
      show ?thesis
      proof (cases r0)
        case None
        with assms(2) le l nd have "commit (s\<lparr>id_to_idx := ids\<rparr>) (map (map f32) embeddings) metas = (r, s')"
          by (simp add: add_documents_def Let_def)
        from via_commit [OF this] le(1) show ?thesis by simp
      next
        case (Some x)
        with assms(2) le l nd have "s' = s\<lparr>id_to_idx := ids\<rparr>" "\<forall>n. r = Inr n \<longrightarrow> n = 0"
          by (auto simp: add_documents_def Let_def)
        then show ?thesis using same by (simp add: vectors_def)
      qed
    qed
  qed
qed

lemma step_aligned:
  assumes "aligned s"
  shows "aligned (step f32 s c) \<and>
         set (zip (vectors (step f32 s c)) (metadata (step f32 s c)))
           \<subseteq> set (zip (vectors s) (metadata s)) \<union> passed f32 c"
proof (cases c)
  case (Add embeddings metas dedup)
  obtain r s' where a: "add_documents f32 s embeddings metas dedup = (r, s')"
    by (cases "add_documents f32 s embeddings metas dedup")
  from add_documents_aligned [OF assms a] Add a show ?thesis by auto
next
  case Clear
  then show ?thesis by (simp add: clear_def aligned_def vectors_def)
qed

lemma run_aligned:
  "aligned s \<Longrightarrow>
     aligned (run f32 s calls) \<and>
     set (zip (vectors (run f32 s calls)) (metadata (run f32 s calls)))
       \<subseteq> set (zip (vectors s) (metadata s)) \<union> (\<Union>c \<in> set calls. passed f32 c)"
proof (induction calls arbitrary: s)
  case Nil
  then show ?case by (simp add: run_def)
next
  case (Cons c calls)
  from step_aligned [OF Cons.prems, of f32 c]
  have a: "aligned (step f32 s c)"
    and b: "set (zip (vectors (step f32 s c)) (metadata (step f32 s c)))
           \<subseteq> set (zip (vectors s) (metadata s)) \<union> passed f32 c" by simp_all
  have r: "run f32 s (c # calls) = run f32 (step f32 s c) calls" by (simp add: run_def)
  from Cons.IH [OF a] b show ?case unfolding r by auto
qed

lemma init_empty_disk:
  "aligned (init dim itype empty_disk)" "vectors (init dim itype empty_disk) = []"
  "metadata (init dim itype empty_disk) = []" "id_to_idx (init dim itype empty_disk) = []"
  "index_type (init dim itype empty_disk) = itype"
  by (simp_all add: init_def load_index_def empty_disk_def aligned_def vectors_def)

lemma size_of_vectors: "size_of s = length (vectors s)"
  by (cases "index s") (simp_all add: size_of_def vectors_def ntotal_def)

text \<open>
  Claim C1. After any sequence of \<open>add_documents\<close> calls, with or without
  deduplication, failed calls and \<open>clear\<close> included, on a manager created over an empty
  directory: the index holds as many rows as there are metadata records, that number is
  the reported size, and at every position below it the row and the record stored there
  were handed over together, at the same place of one batch.
\<close>

theorem aligned_after_any_calls:
  fixes f32 :: "'a \<Rightarrow> 'a" and dim :: nat and itype :: string and calls :: "'a call list"
    and s :: "'a manager"
  defines "s \<equiv> run f32 (init dim itype empty_disk) calls"
  shows "length (vectors s) = length (metadata s) \<and> size_of s = length (metadata s) \<and>
         (\<forall>i < size_of s. \<exists>c \<in> set calls. (vectors s ! i, metadata s ! i) \<in> passed f32 c)"
proof -
  from run_aligned [OF init_empty_disk(1), of f32 dim itype calls]
  have a: "aligned s" and b: "set (zip (vectors s) (metadata s)) \<subseteq> (\<Union>c \<in> set calls. passed f32 c)"
    by (simp_all add: s_def init_empty_disk)
  from a have len: "length (vectors s) = length (metadata s)" by (simp add: aligned_def)
  have "\<exists>c \<in> set calls. (vectors s ! i, metadata s ! i) \<in> passed f32 c" if "i < size_of s" for i
  proof -
    from that len have "(vectors s ! i, metadata s ! i) \<in> set (zip (vectors s) (metadata s))"
      by (auto simp: size_of_vectors in_set_zip)
    with b show ?thesis by blast
  qed
  with len show ?thesis by (simp add: size_of_vectors)
qed

theorem aligned_after_any_calls_witness:
  "(1 :: nat) < size_of (run id (init 2 ''flat'' empty_disk) [Add [[1, 0], [0, 1 :: int]] [q1, q2] True]) \<and>
   metadata (run id (init 2 ''flat'' empty_disk) [Add [[1, 0], [0, 1 :: int]] [q1, q2] True]) ! 1 = q2 \<and>
   vectors (run id (init 2 ''flat'' empty_disk) [Add [[1, 0], [0, 1 :: int]] [q1, q2] True]) ! 1 = [0, 1] \<and>
   (vectors (run id (init 2 ''flat'' empty_disk) [Add [[1, 0], [0, 1 :: int]] [q1, q2] True]) ! 1,
    metadata (run id (init 2 ''flat'' empty_disk) [Add [[1, 0], [0, 1 :: int]] [q1, q2] True]) ! 1)
     \<in> passed id (Add [[1, 0], [0, 1 :: int]] [q1, q2] True)"
proof -
  let ?s = "run id (init 2 ''flat'' empty_disk) [Add [[1, 0], [0, 1 :: int]] [q1, q2] True]"
  have h: "(1 :: nat) < size_of ?s" by code_simp
  have m: "metadata ?s ! 1 = q2" by code_simp
  have v: "vectors ?s ! 1 = [0, 1]" by code_simp
  note t = aligned_after_any_calls [of id 2 "''flat''" "[Add [[1, 0], [0, 1 :: int]] [q1, q2] True]",
      THEN conjunct2, THEN conjunct2, THEN spec, THEN mp, OF h]
  from t have "(vectors ?s ! 1, metadata ?s ! 1) \<in> passed id (Add [[1, 0], [0, 1 :: int]] [q1, q2] True)"
    by simp
  with h m v show ?thesis by blast
qed

subsection \<open>The fall back to exact search\<close>

lemma faiss_add_kind: "faiss_add ix e = Inr ix' \<Longrightarrow> kind ix' = kind ix"
  by (auto simp: faiss_add_def split: if_splits)

lemma the_index_flat:
  "flat_state s \<Longrightarrow> flat_state (snd (the_index s)) \<and> kind (fst (the_index s)) = IndexFlatIP"
  by (cases "index s") (simp_all add: flat_state_def the_index_def create_index_def new_index_def)

lemma save_index_flat: "flat_state (snd (save_index s)) = flat_state s"
  by (simp add: flat_state_def save_index_frame)

lemma train_step_flat: "index_type s \<noteq> ''ivf'' \<Longrightarrow> train_step s e = (None, s)"
  by (simp add: train_step_def)

lemma after_train_flat:
  assumes "flat_state s1" and "commit s e m = (r, s')" and "train_step s e = (None, s1)"
  shows "flat_state s'"
  using assms(2)
proof (cases rule: commit_cases)
  case (train_failed x)
  with assms(3) show ?thesis by simp
next
  case (add_failed s2 x)
  with assms(3) have "s2 = s1" by simp
  with add_failed the_index_flat [OF assms(1)] show ?thesis by simp
next
  case (added s2 ix')
  with assms(3) have s2: "s2 = s1" by simp
  from added(2) faiss_add_kind the_index_flat [OF assms(1)] s2 have "kind ix' = IndexFlatIP"
    by fastforce
  with the_index_flat [OF assms(1)] s2
  have "flat_state ((snd (the_index s2))\<lparr>index := Some ix', metadata := metadata s2 @ m\<rparr>)"
    by (simp add: flat_state_def)
  with added(3) show ?thesis by (simp add: save_index_flat)
qed

lemma commit_flat:
  assumes "flat_state s" and "commit s e m = (r, s')"
  shows "flat_state s'"
proof -
  from assms(1) have "train_step s e = (None, s)" by (simp add: train_step_flat flat_state_def)
  from after_train_flat [OF assms(1) assms(2) this] show ?thesis .
qed

lemma flat_state_ids: "flat_state (s\<lparr>id_to_idx := ids\<rparr>) = flat_state s"
  by (simp add: flat_state_def)

lemma add_documents_flat:
  assumes "flat_state s"
  shows "flat_state (snd (add_documents f32 s embeddings metas dedup))"
proof -
  let ?ps = "zip (map (map f32) embeddings) metas"
  obtain r0 ne nm ids where l: "dedup_loop (length (metadata s)) ?ps [] [] (id_to_idx s) = (r0, ne, nm, ids)"
    by (cases "dedup_loop (length (metadata s)) ?ps [] [] (id_to_idx s)") auto
  obtain r1 ids1 where l1: "register_loop (length (metadata s)) 0 metas (id_to_idx s) = (r1, ids1)"
    by (cases "register_loop (length (metadata s)) 0 metas (id_to_idx s)")
  have c: "flat_state (snd (commit (s\<lparr>id_to_idx := i\<rparr>) e m))" for i e m
    using commit_flat [of "s\<lparr>id_to_idx := i\<rparr>" e m] assms
    by (cases "commit (s\<lparr>id_to_idx := i\<rparr>) e m") (simp add: flat_state_ids)
  show ?thesis
    using assms l l1 c
    by (cases r0; cases r1; simp add: add_documents_def Let_def flat_state_ids)
qed

lemma run_flat: "flat_state s \<Longrightarrow> flat_state (run f32 s calls)"
proof (induction calls arbitrary: s)
  case Nil
  then show ?case by (simp add: run_def)
next
  case (Cons c calls)
  have "flat_state (step f32 s c)"
  proof (cases c)
    case (Add e m dd)
    with Cons.prems show ?thesis by (simp add: add_documents_flat)
  next
    case Clear
    with Cons.prems show ?thesis by (simp add: clear_def flat_state_def)
  qed
  from Cons.IH [OF this] show ?case by (simp add: run_def)
qed

lemma register_loop_ok:
  "\<forall>m \<in> set metas. hashable (doc_id m) \<Longrightarrow> fst (register_loop n i metas ids) = None"
  by (induction metas arbitrary: i ids) auto

lemma fallback_step:
  assumes "index_type s = ''ivf''" and "\<not> trained s" and "e \<noteq> []" and "length e < IVF_NLIST"
  shows "flat_state (snd (commit s e m))"
proof -
  let ?s1 = "create_index (s\<lparr>index_type := ''flat''\<rparr>)"
  from assms have t: "train_step s e = (None, ?s1)" by (simp add: train_step_def)
  have f: "flat_state ?s1" by (simp add: flat_state_def create_index_def new_index_def)
  obtain r s' where c: "commit s e m = (r, s')" by (cases "commit s e m")
  from after_train_flat [OF f c t] c show ?thesis by simp
qed

text \<open>
  Claim C3. A manager configured for clustered search and not yet trained, given a batch
  of which at least one row but fewer than \<open>IVF_NLIST\<close> rows survive (identifiers
  hashable), is set to exact search by that call, and stays so through every later
  sequence of \<open>add_documents\<close> and \<open>clear\<close> calls, whatever the size of the batches:
  its index type is \<open>flat\<close> and any index it holds is a flat one.
\<close>

theorem fallback_is_permanent:
  assumes "index_type s = ''ivf''" and "\<not> trained s"
    and "length embeddings = length metas"
    and "\<forall>m \<in> set metas. hashable (doc_id m)"
    and "surviving f32 s embeddings metas dedup \<noteq> []"
    and "length (surviving f32 s embeddings metas dedup) < IVF_NLIST"
  shows "\<forall>calls. index_type (run f32 s (Add embeddings metas dedup # calls)) = ''flat'' \<and>
           (\<forall>ix. index (run f32 s (Add embeddings metas dedup # calls)) = Some ix
                  \<longrightarrow> kind ix = IndexFlatIP)"
proof -
  let ?ps = "zip (map (map f32) embeddings) metas"
  have first: "flat_state (step f32 s (Add embeddings metas dedup))"
  proof (cases dedup)
    case True
    obtain r0 ne nm ids where l: "dedup_loop (length (metadata s)) ?ps [] [] (id_to_idx s) = (r0, ne, nm, ids)"
      by (cases "dedup_loop (length (metadata s)) ?ps [] [] (id_to_idx s)") auto
    have h: "\<forall>(e, m) \<in> set ?ps. hashable (doc_id m)"
      using assms(4) by (auto dest: set_zip_rightD)
    from dedup_loop_registers [OF l h] have r0: "r0 = None" by simp
    from l True assms(5,6) have ne: "ne \<noteq> []" "length ne < IVF_NLIST" by (simp_all add: surviving_def)
    from ne(1) l have "?ps \<noteq> []" by auto
    with assms(3) have nonempty: "embeddings \<noteq> []" "metas \<noteq> []" by auto
    have "flat_state (snd (commit (s\<lparr>id_to_idx := ids\<rparr>) ne nm))"
      using assms(1,2) ne by (intro fallback_step) (simp_all add: trained_def)
    with True l r0 ne nonempty assms(3) show ?thesis by (simp add: add_documents_def Let_def)
  next
    case False
    obtain r1 ids where l: "register_loop (length (metadata s)) 0 metas (id_to_idx s) = (r1, ids)"
      by (cases "register_loop (length (metadata s)) 0 metas (id_to_idx s)")
    from register_loop_ok [OF assms(4), of "length (metadata s)" 0 "id_to_idx s"] l have r1: "r1 = None"
      by simp
    from False assms(5,6) have ne: "map (map f32) embeddings \<noteq> []" "length (map (map f32) embeddings) < IVF_NLIST"
      by (simp_all add: surviving_def)
    with assms(3) have nonempty: "embeddings \<noteq> []" "metas \<noteq> []" by auto
    have "flat_state (snd (commit (s\<lparr>id_to_idx := ids\<rparr>) (map (map f32) embeddings) metas))"
      using assms(1,2) ne by (intro fallback_step) (simp_all add: trained_def)
    with False l r1 nonempty assms(3) show ?thesis by (simp add: add_documents_def Let_def)
  qed
  have fs: "flat_state (run f32 s (Add embeddings metas dedup # calls))" for calls
    using run_flat [OF first, of f32 calls] by (simp add: run_def)
  show ?thesis
  proof (intro allI)
    fix calls
    from fs [of calls]
    show "index_type (run f32 s (Add embeddings metas dedup # calls)) = ''flat'' \<and>
           (\<forall>ix. index (run f32 s (Add embeddings metas dedup # calls)) = Some ix
                  \<longrightarrow> kind ix = IndexFlatIP)"
      by (cases "index (run f32 s (Add embeddings metas dedup # calls))") (simp_all add: flat_state_def)
  qed
qed

theorem fallback_is_permanent_witness:
  "index_type (init 2 ''ivf'' empty_disk :: int manager) = ''ivf'' \<and>
   \<not> trained (init 2 ''ivf'' empty_disk :: int manager) \<and>
   length [[1 :: int, 0]] = length [q1] \<and> hashable (doc_id q1) \<and>
   surviving id (init 2 ''ivf'' empty_disk) [[1 :: int, 0]] [q1] True = [[1, 0]] \<and>
   length (surviving id (init 2 ''ivf'' empty_disk) [[1 :: int, 0]] [q1] True) < IVF_NLIST \<and>
   index_type (run id (init 2 ''ivf'' empty_disk) small_then_large) = ''flat'' \<and>
   size_of (run id (init 2 ''ivf'' empty_disk) small_then_large) = 101"
proof -
  let ?s = "init 2 ''ivf'' empty_disk :: int manager"
  have h1: "index_type ?s = ''ivf''" by code_simp
  have h2: "\<not> trained ?s" by code_simp
  have h3: "length [[1 :: int, 0]] = length [q1]" by simp
  have g: "hashable (doc_id q1)" by code_simp
  then have h4: "\<forall>m \<in> set [q1]. hashable (doc_id m)" by simp
  have sv: "surviving id ?s [[1 :: int, 0]] [q1] True = [[1, 0]]" by code_simp
  then have h5: "surviving id ?s [[1 :: int, 0]] [q1] True \<noteq> []" by simp
  have h6: "length (surviving id ?s [[1 :: int, 0]] [q1] True) < IVF_NLIST" by code_simp
  have sz: "size_of (run id ?s small_then_large) = 101" by code_simp
  note t = fallback_is_permanent [OF h1 h2 h3 h4 h5 h6, THEN spec,
      of "[Add (replicate 100 [0, 1]) (replicate 100 q2) False]", THEN conjunct1]
  then have "index_type (run id ?s small_then_large) = ''flat''" by (simp add: small_then_large_def)
  with h1 h2 h3 g sv h6 sz show ?thesis by blast
qed

subsection \<open>Records without an identifier\<close>

lemma idless_doc_id: "idless m \<Longrightarrow> doc_id m = VStr []"
  by (simp add: idless_def doc_id_def dict_get_default_def)

lemma blank_once_add:
  assumes "blank_once xs ids" and "map_of ids (doc_id m) = None"
  shows "blank_once (xs @ [m]) (AList.update (doc_id m) v ids)"
proof (cases "doc_id m = VStr []")
  case True
  with assms have "\<not> (\<exists>x \<in> set xs. doc_id x = VStr [])" by (auto simp: blank_once_def)
  then have "filter (\<lambda>m. doc_id m = VStr []) xs = []" by (auto simp: filter_empty_conv)
  with True show ?thesis by (simp add: blank_once_def update_conv')
next
  case False
  with assms show ?thesis by (auto simp: blank_once_def update_conv')
qed

lemma dedup_loop_blank_once:
  "dedup_loop n ps ne nm ids = (r, ne', nm', ids') \<Longrightarrow> blank_once (md @ nm) ids
    \<Longrightarrow> blank_once (md @ nm') ids'"
proof (induction ps arbitrary: ne nm ids)
  case Nil
  then show ?case by simp
next
  case (Cons p ps)
  obtain emb meta where p: "p = (emb, meta)" by (cases p)
  show ?case
  proof (cases "hashable (doc_id meta) \<and> map_of ids (doc_id meta) = None")
    case True
    with Cons.prems(1) p
    have l: "dedup_loop n ps (ne @ [emb]) (nm @ [meta])
              (AList.update (doc_id meta) (n + length (nm @ [meta]) - 1) ids) = (r, ne', nm', ids')"
      by simp
    from blank_once_add [OF Cons.prems(2), of meta] True
    have "blank_once (md @ (nm @ [meta])) (AList.update (doc_id meta) (n + length (nm @ [meta]) - 1) ids)"
      by simp
    from Cons.IH [OF l this] show ?thesis .
  next
    case False
    show ?thesis
    proof (cases "hashable (doc_id meta)")
      case True
      with False Cons.prems(1) p have "dedup_loop n ps ne nm ids = (r, ne', nm', ids')" by auto
      from Cons.IH [OF this Cons.prems(2)] show ?thesis .
    next
      case False
      with Cons.prems p show ?thesis by simp
    qed
  qed
qed

lemma blank_once_prefix: "blank_once (md @ nm) ids \<Longrightarrow> blank_once md ids"
  by (auto simp: blank_once_def)

lemma commit_metadata:
  assumes "commit s e m = (r, s')"
  shows "(metadata s' = metadata s \<and> (\<forall>n. r \<noteq> Inr n)) \<or>
         (metadata s' = metadata s @ m \<and> (\<forall>n. r = Inr n \<longrightarrow> n = length e))"
  using assms
proof (cases rule: commit_cases)
  case (train_failed x)
  then have "s' = snd (train_step s e)" by simp
  with train_failed(2) show ?thesis by (simp add: train_step_frame)
next
  case (add_failed s1 x)
  then have "s1 = snd (train_step s e)" by simp
  with add_failed show ?thesis by (simp add: train_step_frame the_index_frame)
next
  case (added s1 ix')
  then have "s1 = snd (train_step s e)" by simp
  with added(3,4) show ?thesis by (auto simp: train_step_frame save_index_frame)
qed

lemma add_documents_dedup_blank_once:
  assumes "blank_once (metadata s) (id_to_idx s)"
    and "add_documents f32 s embeddings metas True = (r, s')"
  shows "blank_once (metadata s') (id_to_idx s') \<and>
         (\<forall>n. r = Inr n \<longrightarrow> length (metadata s') = length (metadata s) + n)"
proof (cases "length embeddings \<noteq> length metas \<or> length embeddings = 0")
  case True
  with assms have "s' = s" "\<forall>n. r = Inr n \<longrightarrow> n = 0"
    by (auto simp: add_documents_def split: if_splits)
  with assms(1) show ?thesis by simp
next
  case False
  then have le: "length embeddings = length metas" "embeddings \<noteq> []" "metas \<noteq> []" by auto
  let ?ps = "zip (map (map f32) embeddings) metas"
  obtain r0 ne nm ids where l: "dedup_loop (length (metadata s)) ?ps [] [] (id_to_idx s) = (r0, ne, nm, ids)"
    by (cases "dedup_loop (length (metadata s)) ?ps [] [] (id_to_idx s)") auto
  from dedup_loop_blank_once [OF l, of "metadata s"] assms(1)
  have b: "blank_once (metadata s @ nm) ids" by simp
  from dedup_loop_new [OF l] have len: "length ne = length nm" by auto
  show ?thesis
  proof (cases "r0 = None \<and> ne \<noteq> []")
    case True
    with assms(2) le l have c: "commit (s\<lparr>id_to_idx := ids\<rparr>) ne nm = (r, s')"
      by (simp add: add_documents_def Let_def)
    from commit_frame(1) [of "s\<lparr>id_to_idx := ids\<rparr>" ne nm] c have i: "id_to_idx s' = ids" by simp
    from commit_metadata [OF c] b i len show ?thesis
      by (auto dest: blank_once_prefix)
  next
    case False
    with assms(2) le l have "s' = s\<lparr>id_to_idx := ids\<rparr>" "\<forall>n. r = Inr n \<longrightarrow> n = 0"
      by (auto simp: add_documents_def Let_def split: option.splits if_splits)
    with b show ?thesis by (auto dest: blank_once_prefix)
  qed
qed

lemma run_dedup_blank_once:
  "blank_once (metadata s) (id_to_idx s) \<Longrightarrow> \<forall>c \<in> set calls. is_dedup_add c
    \<Longrightarrow> blank_once (metadata (run f32 s calls)) (id_to_idx (run f32 s calls))"
proof (induction calls arbitrary: s)
  case Nil
  then show ?case by (simp add: run_def)
next
  case (Cons c calls)
  from Cons.prems(2) obtain e m where c: "c = Add e m True" by (cases c) auto
  obtain r s' where a: "add_documents f32 s e m True = (r, s')" by (cases "add_documents f32 s e m True")
  from add_documents_dedup_blank_once [OF Cons.prems(1) a]
  have "blank_once (metadata (step f32 s c)) (id_to_idx (step f32 s c))" by (simp add: c a)
  from Cons.IH [OF this] Cons.prems(2) show ?case by (simp add: run_def)
qed

lemma add_documents_dedup_count:
  assumes "add_documents f32 s embeddings metas True = (Inr n, s')"
  shows "length (metadata s') = length (metadata s) + n"
proof (cases "length embeddings \<noteq> length metas \<or> length embeddings = 0")
  case True
  with assms show ?thesis by (auto simp: add_documents_def split: if_splits)
next
  case False
  then have le: "length embeddings = length metas" "embeddings \<noteq> []" "metas \<noteq> []" by auto
  let ?ps = "zip (map (map f32) embeddings) metas"
  obtain r0 ne nm ids where l: "dedup_loop (length (metadata s)) ?ps [] [] (id_to_idx s) = (r0, ne, nm, ids)"
    by (cases "dedup_loop (length (metadata s)) ?ps [] [] (id_to_idx s)") auto
  from dedup_loop_new [OF l] have len: "length ne = length nm" by auto
  show ?thesis
  proof (cases "r0 = None \<and> ne \<noteq> []")
    case True
    with assms le l have c: "commit (s\<lparr>id_to_idx := ids\<rparr>) ne nm = (Inr n, s')"
      by (simp add: add_documents_def Let_def)
    from commit_metadata [OF c] len show ?thesis by simp
  next
    case False
    with assms le l have "s' = s\<lparr>id_to_idx := ids\<rparr>" "n = 0"
      by (auto simp: add_documents_def Let_def split: option.splits if_splits)
    then show ?thesis by simp
  qed
qed

text \<open>
  Claim C10. A record with neither a truthy \<open>id\<close> nor a \<open>source_id\<close> field gets the
  empty string as its identifier. Hence, after any sequence of deduplicating
  \<open>add_documents\<close> calls on a manager created over an empty directory, the metadata
  holds at most one such record: every further one was skipped. And the count a
  deduplicating call returns is the number of records it appended, the skipped ones not
  among them.
\<close>

theorem one_record_without_identifier:
  assumes "\<forall>c \<in> set calls. is_dedup_add c"
  shows "(\<forall>m. idless m \<longrightarrow> doc_id m = VStr []) \<and>
         length (filter idless (metadata (run f32 (init dim itype empty_disk) calls))) \<le> 1 \<and>
         (\<forall>s e m n s'. add_documents f32 s e m True = (Inr n, s')
             \<longrightarrow> length (metadata s') = length (metadata s) + n)"
proof -
  let ?s = "run f32 (init dim itype empty_disk) calls"
  have "blank_once (metadata (init dim itype empty_disk)) (id_to_idx (init dim itype empty_disk))"
    by (simp add: init_empty_disk blank_once_def)
  from run_dedup_blank_once [OF this assms]
  have one: "length (filter (\<lambda>m. doc_id m = VStr []) (metadata ?s)) \<le> 1" by (simp add: blank_once_def)
  have "filter idless (metadata ?s) = filter idless (filter (\<lambda>m. doc_id m = VStr []) (metadata ?s))"
    by (auto simp: idless_doc_id intro: filter_cong)
  then have "length (filter idless (metadata ?s)) \<le> length (filter (\<lambda>m. doc_id m = VStr []) (metadata ?s))"
    by (metis length_filter_le)
  with one have a: "length (filter idless (metadata ?s)) \<le> 1" by simp
  have b: "\<forall>m. idless m \<longrightarrow> doc_id m = VStr []" by (simp add: idless_doc_id)
  have c: "\<forall>s e m n s'. add_documents f32 s e m True = (Inr n, s')
             \<longrightarrow> length (metadata s') = length (metadata s) + n"
    using add_documents_dedup_count by blast
  from a b c show ?thesis by (intro conjI)
qed

theorem one_record_without_identifier_witness:
  "is_dedup_add (two_blank_batches ! 0) \<and> is_dedup_add (two_blank_batches ! 1) \<and>
   idless [(''topic'', VStr ''Thermo'')] \<and> idless [(''id'', VStr [])] \<and>
   idless [(''topic'', VStr ''Optics'')] \<and>
   doc_id [(''topic'', VStr ''Thermo'')] = VStr [] \<and>
   metadata (run id (init 2 ''flat'' empty_disk) two_blank_batches) = [[(''topic'', VStr ''Thermo'')]] \<and>
   length (filter idless (metadata (run id (init 2 ''flat'' empty_disk) two_blank_batches))) \<le> 1 \<and>
   fst (add_documents id (init 2 ''flat'' empty_disk) [[1, 0], [0, 1 :: int]]
          [[(''topic'', VStr ''Thermo'')], [(''id'', VStr [])]] True) = Inr 1"
proof -
  have d: "is_dedup_add (two_blank_batches ! 0)" "is_dedup_add (two_blank_batches ! 1)" by code_simp+
  then have h: "\<forall>c \<in> set two_blank_batches. is_dedup_add c"
    by (simp add: two_blank_batches_def)
  have i: "idless [(''topic'', VStr ''Thermo'')]" "idless [(''id'', VStr [])]"
    "idless [(''topic'', VStr ''Optics'')]" by code_simp+
  note t = one_record_without_identifier [OF h, of id 2 "''flat''"]
  from t i(1) have e: "doc_id [(''topic'', VStr ''Thermo'')] = VStr []" by blast
  from t have c: "length (filter idless (metadata (run id (init 2 ''flat'' empty_disk) two_blank_batches))) \<le> 1"
    by blast
  have m: "metadata (run id (init 2 ''flat'' empty_disk) two_blank_batches) = [[(''topic'', VStr ''Thermo'')]]"
    by code_simp
  have r: "fst (add_documents id (init 2 ''flat'' empty_disk) [[1, 0], [0, 1 :: int]]
          [[(''topic'', VStr ''Thermo'')], [(''id'', VStr [])]] True) = Inr 1" by code_simp
  from d i e c m r show ?thesis by (intro conjI)
qed

section \<open>Loading\<close>

subsection \<open>Malformed artifacts\<close>

text \<open>
  Claim C4 says that loading a malformed pair of artifacts, or one of another dimension,
  raises an error and is never taken for a missing index. The code catches every
  exception of the load: with an unreadable index file the manager comes up exactly as
  over an empty directory; with an unreadable sidecar it has no metadata and no
  identifiers; and a pair saved with dimension 2 loads into a manager configured with
  dimension 3.
\<close>

theorem corrupt_load_counterexample:
  "init 2 ''flat'' corrupt_blob_disk = (init 2 ''flat'' empty_disk)\<lparr>files := corrupt_blob_disk\<rparr> \<and>
   metadata (init 2 ''flat'' corrupt_sidecar_disk) = metadata (init 2 ''flat'' (empty_disk :: int disk)) \<and>
   id_to_idx (init 2 ''flat'' corrupt_sidecar_disk) = id_to_idx (init 2 ''flat'' (empty_disk :: int disk)) \<and>
   init 3 ''flat'' saved_disk = example_index\<lparr>dimension := 3\<rparr>"
  by code_simp

text \<open>
  Claim C4, amended. When both artifacts exist, \<open>_load_index\<close> raises nothing. With an
  unreadable index file it returns \<open>False\<close> and leaves the manager as it was. With a
  readable index file and a sidecar that does not parse, or parses without its metadata,
  it returns \<open>False\<close> and leaves metadata, identity map and index type as they were.
  With a readable pair it returns \<open>True\<close> and takes over the index and the metadata,
  keeping the configured dimension: the declared one is not looked at.
\<close>

theorem load_never_raises:
  "(index_file (files s) = Some BlobGarbage \<and> metadata_file (files s) = Some js
      \<longrightarrow> load_index s = (False, s)) \<and>
   (index_file (files s) = Some (Blob ix) \<and>
    (metadata_file (files s) = Some JsonGarbage \<or>
     (\<exists>sc. metadata_file (files s) = Some (JsonObject sc) \<and> sc_metadata sc = None))
      \<longrightarrow> fst (load_index s) = False \<and> metadata (snd (load_index s)) = metadata s \<and>
          id_to_idx (snd (load_index s)) = id_to_idx s \<and>
          index_type (snd (load_index s)) = index_type s) \<and>
   (index_file (files s) = Some (Blob ix) \<and> metadata_file (files s) = Some (JsonObject sc) \<and>
    sc_metadata sc = Some md
      \<longrightarrow> fst (load_index s) = True \<and> index (snd (load_index s)) = Some ix \<and>
          metadata (snd (load_index s)) = md \<and> dimension (snd (load_index s)) = dimension s)"
  by (auto simp: load_index_def)

theorem load_never_raises_witness:
  "index_file (files ((init 2 ''flat'' empty_disk)\<lparr>files := corrupt_blob_disk\<rparr>)) = Some BlobGarbage \<and>
   metadata_file (files ((init 2 ''flat'' empty_disk)\<lparr>files := corrupt_blob_disk\<rparr>)) = Some saved_sidecar \<and>
   load_index ((init 2 ''flat'' empty_disk)\<lparr>files := corrupt_blob_disk\<rparr>)
     = (False, (init 2 ''flat'' empty_disk)\<lparr>files := corrupt_blob_disk\<rparr>) \<and>
   index_file (files ((init 2 ''flat'' empty_disk)\<lparr>files := corrupt_sidecar_disk\<rparr>)) = Some saved_blob \<and>
   metadata_file (files ((init 2 ''flat'' empty_disk)\<lparr>files := corrupt_sidecar_disk\<rparr>)) = Some JsonGarbage \<and>
   fst (load_index ((init 2 ''flat'' empty_disk)\<lparr>files := corrupt_sidecar_disk\<rparr>)) = False \<and>
   metadata (snd (load_index ((init 2 ''flat'' empty_disk)\<lparr>files := corrupt_sidecar_disk\<rparr>))) = [] \<and>
   index_file (files ((init 3 ''flat'' empty_disk)\<lparr>files := saved_disk\<rparr>)) = Some saved_blob \<and>
   metadata_file (files ((init 3 ''flat'' empty_disk)\<lparr>files := saved_disk\<rparr>)) = Some saved_sidecar \<and>
   fst (load_index ((init 3 ''flat'' empty_disk)\<lparr>files := saved_disk\<rparr>)) = True \<and>
   metadata (snd (load_index ((init 3 ''flat'' empty_disk)\<lparr>files := saved_disk\<rparr>))) = [q1, q2] \<and>
   dimension (snd (load_index ((init 3 ''flat'' empty_disk)\<lparr>files := saved_disk\<rparr>))) = 3"
proof -
  let ?a = "(init 2 ''flat'' empty_disk)\<lparr>files := corrupt_blob_disk\<rparr>"
  let ?b = "(init 2 ''flat'' empty_disk)\<lparr>files := corrupt_sidecar_disk\<rparr>"
  let ?c = "(init 3 ''flat'' empty_disk)\<lparr>files := saved_disk\<rparr>"
  let ?ix = "\<lparr>kind = IndexFlatIP, d = 2, is_trained = True, xb = [[1, 0], [0, 1 :: int]]\<rparr>"
  let ?sc = "\<lparr>sc_metadata = Some [q1, q2], sc_id_to_idx = Some [(''q1'', 0), (''q2'', 1)],
              sc_index_type = Some ''flat'', sc_dimension = Some 2\<rparr>"
  have a1: "index_file (files ?a) = Some BlobGarbage" by code_simp
  have a2: "metadata_file (files ?a) = Some saved_sidecar" by code_simp
  have b1: "index_file (files ?b) = Some saved_blob" by code_simp
  have b2: "metadata_file (files ?b) = Some JsonGarbage" by code_simp
  have c1: "index_file (files ?c) = Some saved_blob" by code_simp
  have c2: "metadata_file (files ?c) = Some saved_sidecar" by code_simp
  have mb: "metadata ?b = []" and dc: "dimension ?c = 3" by code_simp+
  from load_never_raises [of ?a saved_sidecar, THEN conjunct1] a1 a2
  have ra: "load_index ?a = (False, ?a)" by blast
  from load_never_raises [of ?b _ ?ix, THEN conjunct2, THEN conjunct1] b1 b2
  have rb: "fst (load_index ?b) = False \<and> metadata (snd (load_index ?b)) = metadata ?b"
    by (simp add: saved_blob_def)
  from load_never_raises [of ?c _ ?ix ?sc "[q1, q2]", THEN conjunct2, THEN conjunct2] c1 c2
  have rc: "fst (load_index ?c) = True \<and> metadata (snd (load_index ?c)) = [q1, q2] \<and>
            dimension (snd (load_index ?c)) = dimension ?c"
    by (simp add: saved_blob_def saved_sidecar_def)
  from a1 a2 ra b1 b2 rb mb c1 c2 rc dc show ?thesis by simp
qed

subsection \<open>Save, then load\<close>

lemma update_fresh: "k \<notin> fst ` set al \<Longrightarrow> AList.update k v al = al @ [(k, v)]"
  by (induction al) auto

lemma load_fold:
  "string_keys ids \<Longrightarrow> fst ` set acc \<inter> fst ` set ids = {}
    \<Longrightarrow> foldl (\<lambda>acc (k, v). AList.update (VStr k) v acc) acc (map (\<lambda>(k, v). (json_key k, v)) ids)
        = acc @ ids"
proof (induction ids arbitrary: acc)
  case Nil
  then show ?case by simp
next
  case (Cons p ids)
  obtain k v where p: "p = (k, v)" by (cases p)
  from Cons.prems(1) p obtain t where k: "k = VStr t" by (auto simp: string_keys_def split: pyval.splits)
  from Cons.prems(1) have rest: "string_keys ids" and fresh: "k \<notin> fst ` set ids"
    by (auto simp: string_keys_def p)
  from Cons.prems(2) p have "k \<notin> fst ` set acc" by auto
  then have u: "AList.update (VStr (json_key k)) v acc = acc @ [(k, v)]"
    by (simp add: k update_fresh)
  from Cons.prems(2) fresh p have "fst ` set (acc @ [(k, v)]) \<inter> fst ` set ids = {}" by auto
  from Cons.IH [OF rest this] u show ?case by (simp add: p)
qed

lemma load_dict_roundtrip:
  "string_keys ids \<Longrightarrow> load_dict (map (\<lambda>(k, v). (json_key k, v)) ids) = ids"
  using load_fold [of ids "[]"] by (simp add: load_dict_def)

lemma save_then_load:
  assumes "save_index s = (None, s')" and "string_keys (id_to_idx s)"
  shows "init (dimension s) itype (files s') = s'"
proof -
  from assms(1) obtain ix where ix: "index s = Some ix"
    by (cases "index s") (simp_all add: save_index_def)
  from assms(1) ix have w: "index_writable (files s)" "metadata_writable (files s)"
    by (auto simp: save_index_def Let_def split: if_splits)
  from assms(1) ix w have s': "s' = s\<lparr>files := (files s)\<lparr>index_file := Some (Blob ix),
       metadata_file := Some (JsonObject
                 \<lparr>sc_metadata = Some (metadata s),
                  sc_id_to_idx = Some (map (\<lambda>(k, v). (json_key k, v)) (id_to_idx s)),
                  sc_index_type = Some (index_type s),
                  sc_dimension = Some (dimension s)\<rparr>)\<rparr>\<rparr>"
    by (simp add: save_index_def Let_def)
  show ?thesis
    unfolding s' using ix load_dict_roundtrip [OF assms(2)]
    by (cases s) (simp add: init_def load_index_def)
qed

lemma commit_saved:
  assumes "commit s e m = (Inr n, s')"
  shows "\<exists>s3. save_index s3 = (None, s') \<and> id_to_idx s3 = id_to_idx s' \<and> dimension s3 = dimension s'"
proof -
  obtain r1 s1 where t: "train_step s e = (r1, s1)" by (cases "train_step s e")
  obtain ix s2 where i: "the_index s1 = (ix, s2)" by (cases "the_index s1")
  from assms t have r1: "r1 = None" by (cases r1) (simp_all add: commit_def)
  from assms t r1 i obtain ix' where a: "faiss_add ix e = Inr ix'"
    by (cases "faiss_add ix e") (simp_all add: commit_def)
  let ?s3 = "s2\<lparr>index := Some ix', metadata := metadata s2 @ m\<rparr>"
  obtain r3 s3 where sv: "save_index ?s3 = (r3, s3)" by (cases "save_index ?s3")
  from assms t r1 i a sv have "r3 = None" "s3 = s'" by (cases r3; simp add: commit_def)+
  with sv have "save_index ?s3 = (None, s')" by simp
  moreover from this have "id_to_idx ?s3 = id_to_idx s'" "dimension ?s3 = dimension s'"
    using save_index_frame [of ?s3] by simp_all
  ultimately show ?thesis by blast
qed

lemma add_documents_saved:
  assumes "add_documents f32 s embeddings metas dedup = (Inr n, s')" and "0 < n"
  shows "\<exists>s3. save_index s3 = (None, s') \<and> id_to_idx s3 = id_to_idx s' \<and> dimension s3 = dimension s'"
proof -
  let ?ps = "zip (map (map f32) embeddings) metas"
  obtain r0 ne nm ids where l: "dedup_loop (length (metadata s)) ?ps [] [] (id_to_idx s) = (r0, ne, nm, ids)"
    by (cases "dedup_loop (length (metadata s)) ?ps [] [] (id_to_idx s)") auto
  obtain r1 ids1 where l1: "register_loop (length (metadata s)) 0 metas (id_to_idx s) = (r1, ids1)"
    by (cases "register_loop (length (metadata s)) 0 metas (id_to_idx s)")
  from assms l l1 have "\<exists>s0 e m. commit s0 e m = (Inr n, s')"
    by (cases r0; cases r1; cases dedup; auto simp: add_documents_def Let_def split: if_splits)
  then show ?thesis using commit_saved by blast
qed

text \<open>
  Claim C6. When \<open>add_documents\<close> has added rows and returned, so that its save went
  through, and the identity map is a dictionary of string keys, a manager created with the
  same dimension over the files it left is the very manager that saved them, whatever
  index type it is configured with: same size, same identity map, and for every library
  search, query, \<open>k\<close> and filter the same search result, scores included. The index
  file is taken to give back the index that was written.
\<close>

theorem save_load_roundtrip:
  assumes "add_documents f32 s embeddings metas dedup = (Inr n, s')" and "0 < n"
    and "string_keys (id_to_idx s')"
  shows "init (dimension s') itype (files s') = s' \<and>
         size_of (init (dimension s') itype (files s')) = size_of s' \<and>
         id_to_idx (init (dimension s') itype (files s')) = id_to_idx s' \<and>
         (\<forall>nn q k filt. search f32 nn (init (dimension s') itype (files s')) q k filt
                          = search f32 nn s' q k filt)"
proof -
  from add_documents_saved [OF assms(1,2)] obtain s3
    where s3: "save_index s3 = (None, s')" "id_to_idx s3 = id_to_idx s'" "dimension s3 = dimension s'"
    by blast
  from save_then_load [OF s3(1), of itype] assms(3) s3(2,3)
  have "init (dimension s') itype (files s') = s'" by simp
  then show ?thesis by simp
qed

theorem save_load_roundtrip_witness:
  "add_documents id (init 2 ''flat'' empty_disk) [[1, 0], [0, 1]] [q1, q2] True = (Inr 2, example_index) \<and>
   (0 :: nat) < 2 \<and> string_keys (id_to_idx example_index) \<and>
   init (dimension example_index) ''ivf'' (files example_index) = example_index \<and>
   search id exact_ip (init 2 ''ivf'' (files example_index)) [1, 0] 1 None = Inr [(q1, 1)]"
proof -
  have h1: "add_documents id (init 2 ''flat'' empty_disk) [[1, 0], [0, 1]] [q1, q2] True = (Inr 2, example_index)"
    by code_simp
  have h2: "(0 :: nat) < 2" by simp
  have h3: "string_keys (id_to_idx example_index)" by code_simp
  note t = save_load_roundtrip [OF h1 h2 h3, of "''ivf''"]
  then have a: "init (dimension example_index) ''ivf'' (files example_index) = example_index" by blast
  have d: "dimension example_index = 2" by code_simp
  have "search id exact_ip example_index [1, 0] 1 None = Inr [(q1, 1)]" by code_simp
  with a d have b: "search id exact_ip (init 2 ''ivf'' (files example_index)) [1, 0] 1 None = Inr [(q1, 1)]"
    by simp
  from h1 h2 h3 a b show ?thesis by (intro conjI)
qed

end
